theory Spec2Isabelle
  imports Main "HOL-Library.Multiset"
begin

section \<open>Contract artifacts and configuration\<close>

text \<open>
  A compiled contract is a JavaScript object with the fields \<open>name\<close>, \<open>abi\<close>,
  \<open>bytecode\<close> and, once known, \<open>address\<close>. An unset \<open>address\<close> is \<open>undefined\<close>,
  here \<open>None\<close>. An ABI item carries a \<open>type\<close> tag and a list of inputs; a missing
  \<open>inputs\<close> field behaves as the empty list, because the source reads it through
  \<open>... || []\<close>.

  Reading a property of a plain object by name (\<open>contractMap[dep]\<close>,
  \<open>config.constructorParams[name]\<close>) is the lookup of a key in a map; a name that
  is a member of \<open>Object.prototype\<close>, such as \<open>toString\<close>, is not considered.
\<close>

record abi_input =
  input_name :: string
  input_type :: string

record abi_item =
  item_type :: string
  inputs :: "abi_input list"

record contract =
  name :: string
  abi :: "abi_item list"
  bytecode :: string
  address :: "string option"

section \<open>Dependency extraction\<close>

text \<open>
  \<open>Array.prototype.indexOf\<close>: the first index holding the value, or \<open>-1\<close>.
\<close>

fun indexOf :: "'a list \<Rightarrow> 'a \<Rightarrow> int" where
  "indexOf [] v = -1"
| "indexOf (x # xs) v =
     (if x = v then 0 else (let i = indexOf xs v in if i = -1 then -1 else i + 1))"

subsection \<open>From the bytecode\<close>

text \<open>
  One call of \<open>regex.exec(bytecode)\<close> for the global pattern \<open>/__([^_]*)_*/g\<close>,
  on the part of the string from \<open>lastIndex\<close> on. The leftmost position holding
  two underscores starts the match; the group takes the longest run of characters
  other than the underscore, and \<open>_*\<close> the longest run of underscores after it.
  Both stars may match nothing, so the match never backtracks. The result is the
  captured name and the text after the match (where the next call resumes);
  \<open>None\<close> is \<open>null\<close>.
\<close>

fun regex_exec :: "string \<Rightarrow> (string \<times> string) option" where
  "regex_exec (a # b # s) =
     (if a = CHR ''_'' \<and> b = CHR ''_''
      then Some (takeWhile (\<lambda>c. c \<noteq> CHR ''_'') s,
                 dropWhile (\<lambda>c. c = CHR ''_'') (dropWhile (\<lambda>c. c \<noteq> CHR ''_'') s))
      else regex_exec (b # s))"
| "regex_exec s = None"

lemma regex_exec_shorter:
  "regex_exec s = Some (libName, rest) \<Longrightarrow> length rest < length s"
proof (induction s rule: regex_exec.induct)
  case (1 a b s)
  have "length (dropWhile (\<lambda>c. c = CHR ''_'') (dropWhile (\<lambda>c. c \<noteq> CHR ''_'') s))
        \<le> length s"
    by (meson length_dropWhile_le le_trans)
  with 1 show ?case
    by (auto split: if_splits)
qed simp_all

text \<open>The \<open>while\<close> loop of \<open>getDependenciesFromBytecode\<close>, with the array built so far.\<close>

function exec_loop :: "string \<Rightarrow> string list \<Rightarrow> string list" where
  "exec_loop s dependencies =
     (case regex_exec s of
        None \<Rightarrow> dependencies
      | Some (libName, rest) \<Rightarrow>
          exec_loop rest
            (if indexOf dependencies libName = -1 then dependencies @ [libName]
             else dependencies))"
  by pat_completeness auto
termination
  by (relation "measure (\<lambda>(s, dependencies). length s)")
     (auto dest: regex_exec_shorter)

declare exec_loop.simps [simp del]

definition getDependenciesFromBytecode :: "string \<Rightarrow> string list" where
  "getDependenciesFromBytecode bc = exec_loop bc []"

subsection \<open>From the constructor\<close>

text \<open>
  \<open>Array.prototype.filter\<close> hands its callback the value, its index and the
  array itself.
\<close>

definition array_filter :: "('a \<Rightarrow> nat \<Rightarrow> 'a list \<Rightarrow> bool) \<Rightarrow> 'a list \<Rightarrow> 'a list" where
  "array_filter f self =
     map fst (filter (\<lambda>(v, index). f v index self) (zip self [0..<length self]))"

definition onlyUnique :: "'a \<Rightarrow> nat \<Rightarrow> 'a list \<Rightarrow> bool" where
  "onlyUnique v index self = (indexOf self v = int index)"

definition PREFIX :: string where
  "PREFIX = ''inject_''"

definition startsWith :: "string \<Rightarrow> string \<Rightarrow> bool" where
  "startsWith s p = (take (length p) s = p)"

definition getDependenciesFromConstructor :: "abi_item list \<Rightarrow> string list" where
  "getDependenciesFromConstructor abi_items =
     (let firstConstructorInputs =
            (case map inputs
                    (array_filter (\<lambda>item index self. index = 0)
                       (filter (\<lambda>item. item_type item = ''constructor'') abi_items)) of
               [] \<Rightarrow> []
             | ins # _ \<Rightarrow> ins)
      in array_filter onlyUnique
           (map (\<lambda>input. drop (length PREFIX) (input_name input))
              (filter (\<lambda>input. startsWith (input_name input) PREFIX
                                \<and> input_type input = ''address'')
                 firstConstructorInputs)))"

subsection \<open>Both sources\<close>

definition getDependencies :: "contract \<Rightarrow> string list" where
  "getDependencies c =
     getDependenciesFromBytecode (bytecode c) @ getDependenciesFromConstructor (abi c)"

text \<open>
  The dependency edges of a list of contracts, each from a contract's name to the
  name of a dependency, in the order in which \<open>buildDependencyGraph\<close> meets them.
\<close>

definition dependencyEdges :: "contract list \<Rightarrow> (string \<times> string) list" where
  "dependencyEdges cs = concat (map (\<lambda>c. map (Pair (name c)) (getDependencies c)) cs)"

section \<open>Errors\<close>

text \<open>
  The source throws \<open>Error\<close> objects built from a message, and the runtime throws
  a \<open>TypeError\<close> when a property of \<open>undefined\<close> is read. \<open>Unmodelled\<close> is no
  error of the program: it marks the calls of \<open>linkDependency\<close> that this
  development does not describe (see there).
\<close>

datatype error = Error string | TypeError | Unmodelled

definition CycleError :: "string \<Rightarrow> string \<Rightarrow> error" where
  "CycleError contractName depName =
     Error (''Dependency '' @ contractName @ '' -> '' @ depName @ '' inroduces cycle'')"

definition UnresolvedDependencyError :: "string \<Rightarrow> error" where
  "UnresolvedDependencyError dep =
     Error (''Contract '' @ dep @ '' was not deployed because its address is undefined'')"

section \<open>The dependency graph\<close>

subsection \<open>The graph library\<close>

text \<open>
  Modelled from the spec: the graph library (\<open>graphlib\<close>: \<open>Graph\<close>, \<open>hasNode\<close>,
  \<open>setNode\<close>, \<open>setEdge\<close>, \<open>nodes\<close>, \<open>alg.isAcyclic\<close>, \<open>alg.postorder\<close>) is a
  package the source requires; its code is not part of the repository. The spec
  describes it as an explicit adjacency representation, a set of names plus directed
  edges, with a cycle check and a post-order depth-first traversal. The graph keeps
  its nodes and its edges in insertion order; a node or an edge that is already
  there is not added again; \<open>setEdge\<close> adds the two nodes of the edge when they
  are missing. (JavaScript lists the keys of an object that are array indices
  before its other keys. The order of the nodes and of the successors only selects
  one of the orders in which dependencies come first: \<open>postorder_topological\<close>
  below holds for every list of roots.)
\<close>

record graph =
  nodes :: "string list"
  edges :: "(string \<times> string) list"

definition Graph :: graph where
  "Graph = \<lparr>nodes = [], edges = []\<rparr>"

definition hasNode :: "graph \<Rightarrow> string \<Rightarrow> bool" where
  "hasNode g v = (v \<in> set (nodes g))"

definition setNode :: "graph \<Rightarrow> string \<Rightarrow> graph" where
  "setNode g v = (if hasNode g v then g else g\<lparr>nodes := nodes g @ [v]\<rparr>)"

definition setEdge :: "graph \<Rightarrow> string \<Rightarrow> string \<Rightarrow> graph" where
  "setEdge g v w =
     (let g' = setNode (setNode g v) w
      in if (v, w) \<in> set (edges g') then g' else g'\<lparr>edges := edges g' @ [(v, w)]\<rparr>)"

definition successors :: "graph \<Rightarrow> string \<Rightarrow> string list" where
  "successors g v = map snd (filter (\<lambda>e. fst e = v) (edges g))"

text \<open>
  Modelled from the spec: \<open>alg.isAcyclic\<close>, "verify the graph remains acyclic":
  true when no path along the edges leads from a node back to itself.
\<close>

definition isAcyclic :: "graph \<Rightarrow> bool" where
  "isAcyclic g = acyclic (set (edges g))"

text \<open>
  Modelled from the spec: \<open>alg.postorder\<close>, "a post-order depth-first traversal
  over all graph nodes, visiting nodes in the graph's input order and, within each
  node's exploration, its edges in insertion order". The recursion of the traversal
  is kept on an explicit stack: \<open>Visit v\<close> is a pending call on \<open>v\<close>, which does
  nothing when \<open>v\<close> has been visited and otherwise marks it, calls its successors in
  order and then emits it; \<open>Finish v\<close> is that pending emission.
\<close>

datatype frame = Visit string | Finish string

fun weight :: "frame \<Rightarrow> nat" where
  "weight (Visit v) = 2"
| "weight (Finish v) = 1"

definition vertices :: "graph \<Rightarrow> string set" where
  "vertices g = set (nodes g) \<union> fst ` set (edges g) \<union> snd ` set (edges g)"

lemma finite_vertices: "finite (vertices g)"
  by (simp add: vertices_def)

lemma successors_outside: "v \<notin> vertices g \<Longrightarrow> successors g v = []"
  by (auto simp: vertices_def successors_def filter_empty_conv image_iff)

function dfs :: "graph \<Rightarrow> frame list \<Rightarrow> string set \<Rightarrow> string list \<Rightarrow> string list" where
  "dfs g [] visited acc = acc"
| "dfs g (Visit v # stack) visited acc =
     (if v \<in> visited then dfs g stack visited acc
      else dfs g (map Visit (successors g v) @ Finish v # stack) (insert v visited) acc)"
| "dfs g (Finish v # stack) visited acc = dfs g stack visited (acc @ [v])"
  by pat_completeness auto
termination
proof (relation "inv_image (less_than <*lex*> less_than)
         (\<lambda>(g, stack, visited, acc). (card (vertices g - visited), sum_list (map weight stack)))",
       goal_cases)
  case 1
  show ?case by auto
next
  case (2 g v stack visited acc)
  then show ?case by simp
next
  case (3 g v stack visited acc)
  show ?case
  proof (cases "v \<in> vertices g")
    case True
    with 3 have "card (vertices g - insert v visited) < card (vertices g - visited)"
      by (intro psubset_card_mono) (auto simp: finite_vertices)
    then show ?thesis by simp
  next
    case False
    then have "vertices g - insert v visited = vertices g - visited"
      by auto
    with False show ?thesis
      by (simp add: successors_outside)
  qed
next
  case (4 g v stack visited acc)
  then show ?case by simp
qed

definition postorder :: "graph \<Rightarrow> string list \<Rightarrow> string list" where
  "postorder g vs = dfs g (map Visit vs) {} []"

subsection \<open>Building the graph\<close>

text \<open>The inner loop of \<open>buildDependencyGraph\<close>, over the dependencies of one contract.\<close>

fun addDependencies :: "graph \<Rightarrow> string \<Rightarrow> string list \<Rightarrow> error + graph" where
  "addDependencies g contractName [] = Inr g"
| "addDependencies g contractName (depName # deps) =
     (let g1 = (if \<not> hasNode g depName then setNode g depName else g);
          g2 = setEdge g1 contractName depName
      in if \<not> isAcyclic g2 then Inl (CycleError contractName depName)
         else addDependencies g2 contractName deps)"

text \<open>The outer loop, over the contracts.\<close>

fun addContracts :: "graph \<Rightarrow> contract list \<Rightarrow> error + graph" where
  "addContracts g [] = Inr g"
| "addContracts g (c # contracts) =
     (let contractName = name c;
          g1 = (if \<not> hasNode g contractName then setNode g contractName else g)
      in case addDependencies g1 contractName (getDependencies c) of
           Inl e \<Rightarrow> Inl e
         | Inr g2 \<Rightarrow> addContracts g2 contracts)"

definition buildDependencyGraph :: "contract list \<Rightarrow> error + graph" where
  "buildDependencyGraph contracts = addContracts Graph contracts"

text \<open>
  The same two loops with the local variable \<open>g\<close> of \<open>buildDependencyGraph\<close>
  kept in view: the result is the graph as it is when the function is left, and
  the exception, if one is thrown. The source calls \<open>g.setEdge\<close>, then checks,
  then throws; it removes nothing, so at the throw \<open>g\<close> is the graph the edge
  has just been added to.
\<close>

fun addDependencies_state :: "graph \<Rightarrow> string \<Rightarrow> string list \<Rightarrow> graph \<times> error option" where
  "addDependencies_state g contractName [] = (g, None)"
| "addDependencies_state g contractName (depName # deps) =
     (let g1 = (if \<not> hasNode g depName then setNode g depName else g);
          g2 = setEdge g1 contractName depName
      in if \<not> isAcyclic g2 then (g2, Some (CycleError contractName depName))
         else addDependencies_state g2 contractName deps)"

fun addContracts_state :: "graph \<Rightarrow> contract list \<Rightarrow> graph \<times> error option" where
  "addContracts_state g [] = (g, None)"
| "addContracts_state g (c # contracts) =
     (let contractName = name c;
          g1 = (if \<not> hasNode g contractName then setNode g contractName else g)
      in case addDependencies_state g1 contractName (getDependencies c) of
           (g2, Some e) \<Rightarrow> (g2, Some e)
         | (g2, None) \<Rightarrow> addContracts_state g2 contracts)"

definition buildDependencyGraph_state :: "contract list \<Rightarrow> graph \<times> error option" where
  "buildDependencyGraph_state contracts = addContracts_state Graph contracts"

subsection \<open>The deployment order\<close>

text \<open>
  \<open>compiledContracts.sort\<close> with the comparator that subtracts the positions of the
  two names in \<open>dependsOrdering\<close> orders the array by that position; contracts with
  the same position keep their order.
\<close>

definition sortByDependencies :: "contract list \<Rightarrow> error + contract list" where
  "sortByDependencies compiledContracts =
     (case buildDependencyGraph compiledContracts of
        Inl e \<Rightarrow> Inl e
      | Inr depsGraph \<Rightarrow>
          (let dependsOrdering = postorder depsGraph (nodes depsGraph)
           in Inr (sort_key (\<lambda>a. indexOf dependsOrdering (name a)) compiledContracts)))"

section \<open>Linking\<close>

text \<open>
  \<open>String.prototype.replace\<close> with a string pattern: the first occurrence of the
  pattern is replaced, the rest of the text is kept.
\<close>

fun string_replace :: "string \<Rightarrow> string \<Rightarrow> string \<Rightarrow> string" where
  "string_replace pat rep [] = (if pat = [] then rep else [])"
| "string_replace pat rep (c # s) =
     (if take (length pat) (c # s) = pat then rep @ drop (length pat) (c # s)
      else c # string_replace pat rep s)"

text \<open>
  \<open>binary.replace(re, binAddress)\<close> for the global pattern \<open>lit_*\<close>, where \<open>lit\<close> is
  literal text: every match, found from left to right, is the literal followed by
  the longest run of underscores, and is replaced; the search resumes after the
  match.
\<close>

function regex_replace :: "string \<Rightarrow> string \<Rightarrow> string \<Rightarrow> string" where
  "regex_replace lit rep [] = []"
| "regex_replace lit rep (c # s) =
     (if lit \<noteq> [] \<and> take (length lit) (c # s) = lit
      then rep @ regex_replace lit rep
                   (dropWhile (\<lambda>x. x = CHR ''_'') (drop (length lit) (c # s)))
      else c # regex_replace lit rep s)"
  by pat_completeness auto
termination
proof (relation "measure (\<lambda>(lit, rep, s). length s)", goal_cases)
  case 1
  show ?case by simp
next
  case (2 lit rep c s)
  then have "0 < length lit"
    by simp
  then have "length (drop (length lit) (c # s)) \<le> length s"
    by (cases lit) simp_all
  moreover have "length (dropWhile (\<lambda>x. x = CHR ''_'') (drop (length lit) (c # s)))
                 \<le> length (drop (length lit) (c # s))"
    by (rule length_dropWhile_le)
  ultimately show ?case
    by simp
next
  case (3 lit rep c s)
  show ?case by simp
qed

text \<open>
  The characters with a meaning of their own in a regular expression, and the
  names that hold none of them. \<open>linkDependency\<close> builds its pattern from the
  dependency name as it is, so only for such a name is the pattern the literal
  text \<open>__name\<close> followed by \<open>_*\<close>. In the same way a dollar sign in the replacement
  text would be read as a reference to the match. Both cases are outside this
  development: the model answers \<open>Unmodelled\<close> there.
\<close>

definition regexSyntax :: "char list" where
  "regexSyntax = CHR 0x5C # ''^$.*+?()[]{}|''"

definition literalName :: "string \<Rightarrow> bool" where
  "literalName s = list_all (\<lambda>c. c \<notin> set regexSyntax) s"

definition linkDependency :: "string \<Rightarrow> string \<Rightarrow> string option \<Rightarrow> error + string" where
  "linkDependency binary dependencyName dependencyAddress =
     (case dependencyAddress of
        None \<Rightarrow> Inl TypeError
      | Some a \<Rightarrow>
          (let binAddress = string_replace ''0x'' [] a
           in if literalName dependencyName \<and> CHR ''$'' \<notin> set binAddress
              then Inr (regex_replace (''__'' @ dependencyName) binAddress binary)
              else Inl Unmodelled))"

text \<open>
  The loop of \<open>linkBytecode\<close> over the dependencies read from the bytecode before
  the loop starts; \<open>bc\<close> is the contract's bytecode as linked so far. Reading
  \<open>allContracts[depName].address\<close> for a name the map does not hold is a
  \<open>TypeError\<close>.
\<close>

fun linkDependencies :: "string \<Rightarrow> (string \<rightharpoonup> contract) \<Rightarrow> string list \<Rightarrow> error + string" where
  "linkDependencies bc allContracts [] = Inr bc"
| "linkDependencies bc allContracts (depName # deps) =
     (case allContracts depName of
        None \<Rightarrow> Inl TypeError
      | Some dep \<Rightarrow>
          (case linkDependency bc depName (address dep) of
             Inl e \<Rightarrow> Inl e
           | Inr linkedBytecode \<Rightarrow> linkDependencies linkedBytecode allContracts deps))"

definition linkBytecode :: "contract \<Rightarrow> (string \<rightharpoonup> contract) \<Rightarrow> error + contract" where
  "linkBytecode c allContracts =
     (case linkDependencies (bytecode c) allContracts
             (getDependenciesFromBytecode (bytecode c)) of
        Inl e \<Rightarrow> Inl e
      | Inr linked \<Rightarrow> Inr (c\<lparr>bytecode := linked\<rparr>))"

section \<open>Deployment\<close>

text \<open>
  The merged configuration: the deploying account (\<open>from\<close> in the source), the gas
  limit, the constructor parameters and the addresses of contracts that are
  already deployed, the last two keyed by contract name.
\<close>

record config =
  from_account :: string
  gasLimit :: nat
  constructorParams :: "string \<rightharpoonup> string list"
  deployedContracts :: "string \<rightharpoonup> string"

text \<open>
  What \<open>web3Contract.deploy({arguments: params}).send(options)\<close> hands to the
  ledger client: the options and the constructor arguments.
\<close>

record transaction =
  tx_from :: string
  tx_data :: string
  tx_gas :: nat
  tx_arguments :: "string list"

text \<open>
  The loop of \<open>resolveConstructorParams\<close>. An address is pushed when it is truthy:
  set and not the empty string.
\<close>

fun pushAddresses :: "(string \<rightharpoonup> contract) \<Rightarrow> string list \<Rightarrow> string list \<Rightarrow> error + string list" where
  "pushAddresses contractMap params [] = Inr params"
| "pushAddresses contractMap params (dep # deps) =
     (case contractMap dep of
        None \<Rightarrow> Inl TypeError
      | Some d \<Rightarrow>
          (case address d of
             None \<Rightarrow> Inl (UnresolvedDependencyError dep)
           | Some a \<Rightarrow>
               if a \<noteq> [] then pushAddresses contractMap (params @ [a]) deps
               else Inl (UnresolvedDependencyError dep)))"

definition resolveConstructorParams ::
  "config \<Rightarrow> contract \<Rightarrow> (string \<rightharpoonup> contract) \<Rightarrow> error + string list" where
  "resolveConstructorParams cfg c contractMap =
     (let params = (case constructorParams cfg (name c) of None \<Rightarrow> [] | Some ps \<Rightarrow> ps);
          injectableDependencies = getDependenciesFromConstructor (abi c)
      in pushAddresses contractMap params injectableDependencies)"

text \<open>
  \<open>deploy\<close> returns a promise: one that is already resolved with the contract
  when \<open>config.deployedContracts\<close> has a property of the contract's name, whose
  value becomes the address, or the pending promise of the transaction it has
  just sent. It changes the contract it is given (the address, or the bytecode);
  the changed contract is returned with the promise.
\<close>

datatype promise = Resolved contract | Pending transaction

definition deploy ::
  "config \<Rightarrow> contract \<Rightarrow> (string \<rightharpoonup> contract) \<Rightarrow> error + (contract \<times> promise)" where
  "deploy cfg c contractMap =
     (case deployedContracts cfg (name c) of
        Some a \<Rightarrow> (let c' = c\<lparr>address := Some a\<rparr> in Inr (c', Resolved c'))
      | None \<Rightarrow>
          (case linkBytecode c contractMap of
             Inl e \<Rightarrow> Inl e
           | Inr linked \<Rightarrow>
               (case resolveConstructorParams cfg linked contractMap of
                  Inl e \<Rightarrow> Inl e
                | Inr params \<Rightarrow>
                    Inr (linked,
                         Pending \<lparr>tx_from = from_account cfg, tx_data = bytecode linked,
                                  tx_gas = gasLimit cfg, tx_arguments = params\<rparr>))))"

subsection \<open>The run\<close>

text \<open>
  \<open>contractMap\<close> maps each contract's name to the contract object (the
  artifact set of the spec is keyed by contract name), and \<open>toArray\<close> lists the
  same objects in the order of the keys. The model keeps the objects in one list;
  the map is read off the list by name, so that a change \<open>deploy\<close> makes to a
  contract is seen through the map as well.
\<close>

definition contractMapOf :: "contract list \<Rightarrow> (string \<rightharpoonup> contract)" where
  "contractMapOf cs = map_of (map (\<lambda>c. (name c, c)) cs)"

text \<open>
  \<open>compiledContracts.map\<close> calls \<open>deploy\<close> on each contract in turn, without
  waiting for the promise of the call before: the promises are collected, and
  only \<open>Promise.all\<close> waits for them. An exception leaves the \<open>map\<close> at once.
  The result holds the promises made so far and the exception, if any.
\<close>

record run =
  promises :: "promise list"
  thrown :: "error option"

fun deployEach :: "config \<Rightarrow> nat list \<Rightarrow> contract list \<Rightarrow> promise list \<Rightarrow> run" where
  "deployEach cfg [] objs ps = \<lparr>promises = ps, thrown = None\<rparr>"
| "deployEach cfg (i # is) objs ps =
     (case deploy cfg (objs ! i) (contractMapOf objs) of
        Inl e \<Rightarrow> \<lparr>promises = ps, thrown = Some e\<rparr>
      | Inr (c', p) \<Rightarrow> deployEach cfg is (objs[i := c']) (ps @ [p]))"

text \<open>
  The body of the exported loader function once the configuration is known:
  sort the contracts, then deploy each.
\<close>

definition module_exports :: "config \<Rightarrow> contract list \<Rightarrow> run" where
  "module_exports cfg contractMap =
     (case sortByDependencies contractMap of
        Inl e \<Rightarrow> \<lparr>promises = [], thrown = Some e\<rparr>
      | Inr compiledContracts \<Rightarrow>
          deployEach cfg [0..<length compiledContracts] compiledContracts [])"

text \<open>The deployments in flight: the transactions sent and not yet answered.\<close>

definition inFlight :: "run \<Rightarrow> transaction list" where
  "inFlight r = concat (map (\<lambda>p. case p of Resolved c \<Rightarrow> [] | Pending t \<Rightarrow> [t]) (promises r))"

section \<open>Notions used in the proofs\<close>

text \<open>
  The first edge of a sequence that closes a cycle over the edges \<open>E\<close> and the
  edges before it, if there is one.
\<close>

fun firstCycle :: "(string \<times> string) set \<Rightarrow> (string \<times> string) list \<Rightarrow> (string \<times> string) option" where
  "firstCycle E [] = None"
| "firstCycle E (e # es) = (if acyclic (insert e E) then firstCycle (insert e E) es else Some e)"

text \<open>
  The nodes of a traversal stack: those waiting to be emitted, from the top of the
  stack down, and those waiting to be visited.
\<close>

fun finishing :: "frame list \<Rightarrow> string list" where
  "finishing [] = []"
| "finishing (Visit v # st) = finishing st"
| "finishing (Finish v # st) = v # finishing st"

fun visiting :: "frame list \<Rightarrow> string set" where
  "visiting [] = {}"
| "visiting (Visit v # st) = insert v (visiting st)"
| "visiting (Finish v # st) = visiting st"

text \<open>
  The invariant of the traversal stack; \<open>up\<close> holds the nodes of the frames above
  the part of the stack in view. Every successor of a node waiting to be emitted is
  either visited or waits above it, and every node above it is reached from it.
\<close>

fun stack_ok :: "(string \<times> string) set \<Rightarrow> string set \<Rightarrow> string set \<Rightarrow> frame list \<Rightarrow> bool" where
  "stack_ok E vis up [] = True"
| "stack_ok E vis up (Visit w # st) = stack_ok E vis (insert w up) st"
| "stack_ok E vis up (Finish u # st) =
     (E `` {u} \<subseteq> vis \<union> up \<and> (\<forall>x\<in>up. (u, x) \<in> E\<^sup>+) \<and> stack_ok E vis (insert u up) st)"

text \<open>A list in which every successor of an element stands before the element.\<close>

definition ordered :: "(string \<times> string) set \<Rightarrow> string list \<Rightarrow> bool" where
  "ordered E acc = (\<forall>i<length acc. E `` {acc ! i} \<subseteq> set (take i acc))"

text \<open>
  What holds of the local graph when \<open>buildDependencyGraph\<close> is left: it is
  acyclic when the function returns; when the function throws, the error names an
  edge of the graph, the graph is cyclic, and it is acyclic without that edge.
\<close>

definition exit_state_ok :: "graph \<times> error option \<Rightarrow> bool" where
  "exit_state_ok st =
     (case st of
        (g, None) \<Rightarrow> acyclic (set (edges g))
      | (g, Some e) \<Rightarrow>
          (\<exists>x y. e = CycleError x y \<and> (x, y) \<in> set (edges g)
             \<and> \<not> acyclic (set (edges g)) \<and> acyclic (set (edges g) - {(x, y)})))"

section \<open>Example artifacts\<close>

text \<open>
  A configuration with no constructor parameters and no deployed contracts; a
  contract \<open>A\<close> whose bytecode refers to the library \<open>B\<close>, and that library; a
  second library; two contracts that refer to each other.
\<close>

definition exampleConfig :: config where
  "exampleConfig = \<lparr>from_account = ''0xf00'', gasLimit = 1000,
     constructorParams = Map.empty, deployedContracts = Map.empty\<rparr>"

definition contractA :: contract where
  "contractA = \<lparr>name = ''A'', abi = [], bytecode = ''60__B__60'', address = None\<rparr>"

definition libraryB :: contract where
  "libraryB = \<lparr>name = ''B'', abi = [], bytecode = ''6001'', address = None\<rparr>"

definition libraryC :: contract where
  "libraryC = \<lparr>name = ''C'', abi = [], bytecode = ''6002'', address = None\<rparr>"

definition ping :: contract where
  "ping = \<lparr>name = ''Ping'', abi = [], bytecode = ''60__Pong__'', address = None\<rparr>"

definition pong :: contract where
  "pong = \<lparr>name = ''Pong'', abi = [], bytecode = ''60__Ping__'', address = None\<rparr>"

text \<open>The same configuration with an address for the library \<open>B\<close>.\<close>

definition reuseConfig :: config where
  "reuseConfig = exampleConfig\<lparr>deployedContracts := [''B'' \<mapsto> ''0xABC'']\<rparr>"

text \<open>
  A contract whose bytecode and whose constructor both name the library \<open>Lib\<close>.
\<close>

definition libUser :: contract where
  "libUser = \<lparr>name = ''User'',
     abi = [\<lparr>item_type = ''constructor'',
             inputs = [\<lparr>input_name = ''inject_Lib'', input_type = ''address''\<rparr>,
                       \<lparr>input_name = ''amount'', input_type = ''uint256''\<rparr>]\<rparr>],
     bytecode = ''600a__Lib_____600b'', address = None\<rparr>"

text \<open>
  Two libraries with known addresses, the name of the first a prefix of the name of
  the second, and a contract whose bytecode refers to both.
\<close>

definition math :: contract where
  "math = \<lparr>name = ''Math'', abi = [], bytecode = ''6001'', address = Some ''0xaa''\<rparr>"

definition mathExt :: contract where
  "mathExt = \<lparr>name = ''MathExt'', abi = [], bytecode = ''6002'', address = Some ''0xbb''\<rparr>"

definition calc :: contract where
  "calc = \<lparr>name = ''Calc'', abi = [],
     bytecode = ''60__Math____61__MathExt____62'', address = None\<rparr>"

text \<open>
  A contract whose constructor takes the address of a contract \<open>Oracle\<close>, and
  that contract, not deployed and deployed.
\<close>

definition token :: contract where
  "token = \<lparr>name = ''Token'',
     abi = [\<lparr>item_type = ''constructor'',
             inputs = [\<lparr>input_name = ''inject_Oracle'', input_type = ''address''\<rparr>]\<rparr>],
     bytecode = ''6003'', address = None\<rparr>"

definition oracle_contract :: contract where
  "oracle_contract = \<lparr>name = ''Oracle'', abi = [], bytecode = ''6004'', address = None\<rparr>"

section \<open>Properties of the extraction\<close>

text \<open>The examples of the spec: one placeholder, and one injected constructor input.\<close>

lemma extraction_examples:
  "getDependenciesFromBytecode ''600a__Lib_____600b'' = [''Lib'']
   \<and> getDependenciesFromConstructor (abi libUser) = [''Lib'']"
  by code_simp

lemma regex_exec_underscores:
  "regex_exec (CHR ''_'' # CHR ''_'' # replicate n CHR ''_'') = Some ([], [])"
  by (induction n) auto

text \<open>
  C10. A bytecode that consists of two or more underscores and nothing else is one
  placeholder with the empty name: \<open>getDependenciesFromBytecode\<close> returns the
  list holding the empty string, it neither rejects the input nor returns no
  dependency.
\<close>

theorem bytecode_empty_placeholder_name:
  "2 \<le> n \<Longrightarrow> getDependenciesFromBytecode (replicate n CHR ''_'') = ['''']"
proof -
  assume "2 \<le> n"
  then obtain m where n: "n = Suc (Suc m)"
    by (metis add_2_eq_Suc le_Suc_ex)
  have "regex_exec [] = None"
    by simp
  then show ?thesis
    unfolding getDependenciesFromBytecode_def n
    by (simp add: exec_loop.simps [of "CHR ''_'' # CHR ''_'' # replicate m CHR ''_''"]
        exec_loop.simps [of "[]"] regex_exec_underscores)
qed

theorem bytecode_empty_placeholder_name_witness:
  "(2::nat) \<le> 4 \<and> getDependenciesFromBytecode ''____'' = ['''']"
  using bytecode_empty_placeholder_name [of 4]
  by (simp add: numeral_eq_Suc)

subsection \<open>Positions in an array\<close>

lemma indexOf_range:
  "(v \<in> set xs \<longrightarrow> 0 \<le> indexOf xs v \<and> indexOf xs v < int (length xs)) \<and>
   (v \<notin> set xs \<longrightarrow> indexOf xs v = - 1)"
  by (induction xs) (auto simp: Let_def)

lemma indexOf_append:
  "indexOf (xs @ ys) v =
     (if v \<in> set xs then indexOf xs v
      else if v \<in> set ys then int (length xs) + indexOf ys v else - 1)"
proof (induction xs)
  case Nil
  show ?case using indexOf_range [of v ys] by auto
next
  case (Cons a xs)
  show ?case
    using Cons indexOf_range [of v xs] indexOf_range [of v ys]
    by (auto simp: Let_def)
qed

lemma indexOf_nth:
  "distinct xs \<Longrightarrow> i < length xs \<Longrightarrow> indexOf xs (xs ! i) = int i"
proof (induction xs arbitrary: i)
  case Nil
  then show ?case by simp
next
  case (Cons a xs)
  show ?case
  proof (cases i)
    case 0
    then show ?thesis by simp
  next
    case (Suc j)
    with Cons.prems have "xs ! j \<noteq> a" "j < length xs" "distinct xs"
      by auto
    with Cons.IH [of j] Suc show ?thesis
      by (auto simp: Let_def)
  qed
qed

subsection \<open>Duplicates\<close>

text \<open>
  Filtering with \<open>onlyUnique\<close> keeps the first occurrence of every value: an
  element appended to the array is kept when it is new.
\<close>

lemma array_filter_onlyUnique_snoc:
  "array_filter onlyUnique (xs @ [x]) =
     (if x \<in> set xs then array_filter onlyUnique xs
      else array_filter onlyUnique xs @ [x])"
proof -
  have keep: "filter (\<lambda>(v, index). indexOf (xs @ [x]) v = int index) (zip xs [0..<length xs])
            = filter (\<lambda>(v, index). indexOf xs v = int index) (zip xs [0..<length xs])"
    by (rule filter_cong) (auto simp: indexOf_append dest: set_zip_leftD)
  have last: "(indexOf (xs @ [x]) x = int (length xs)) = (x \<notin> set xs)"
    using indexOf_range [of x xs] by (auto simp: indexOf_append)
  show ?thesis
    by (simp add: array_filter_def onlyUnique_def keep last)
qed

lemma array_filter_onlyUnique_set: "set (array_filter onlyUnique xs) = set xs"
proof (induction xs rule: rev_induct)
  case Nil
  show ?case by (simp add: array_filter_def)
next
  case (snoc x xs)
  then show ?case by (auto simp: array_filter_onlyUnique_snoc)
qed

lemma array_filter_onlyUnique_distinct: "distinct (array_filter onlyUnique xs)"
proof (induction xs rule: rev_induct)
  case Nil
  show ?case by (simp add: array_filter_def)
next
  case (snoc x xs)
  then show ?case
    by (simp add: array_filter_onlyUnique_snoc array_filter_onlyUnique_set)
qed

lemma exec_loop_distinct: "distinct acc \<Longrightarrow> distinct (exec_loop s acc)"
proof (induction s acc rule: exec_loop.induct)
  case (1 s dependencies)
  show ?case
  proof (cases "regex_exec s")
    case None
    with 1 show ?thesis by (simp add: exec_loop.simps [of s])
  next
    case (Some p)
    obtain libName rest where p: "p = (libName, rest)" by (cases p)
    let ?deps = "if indexOf dependencies libName = - 1 then dependencies @ [libName]
                 else dependencies"
    have "indexOf dependencies libName = - 1 \<longleftrightarrow> libName \<notin> set dependencies"
      using indexOf_range [of libName dependencies] by auto
    with "1.prems" have "distinct ?deps"
      by simp
    then have "distinct (exec_loop rest ?deps)"
      by (rule "1.IH" [OF Some p [symmetric]])
    with Some p show ?thesis
      by (simp add: exec_loop.simps [of s])
  qed
qed

lemma getDependenciesFromBytecode_distinct: "distinct (getDependenciesFromBytecode bc)"
  by (simp add: getDependenciesFromBytecode_def exec_loop_distinct)

lemma getDependenciesFromConstructor_distinct:
  "distinct (getDependenciesFromConstructor abi_items)"
  by (simp add: getDependenciesFromConstructor_def Let_def array_filter_onlyUnique_distinct)

lemma count_list_distinct:
  "distinct xs \<Longrightarrow> count_list xs v = (if v \<in> set xs then 1 else 0)"
  by (induction xs) auto

text \<open>
  C4, as the code has it. \<open>getDependencies\<close> returns the names read from the
  bytecode followed by the names read from the constructor. Neither part repeats a
  name, and the two parts are joined as they are: a name occurs in the result once
  for each of the two sources that give it, so a name given by both occurs twice.
\<close>

theorem getDependencies_concat:
  "getDependencies c
     = getDependenciesFromBytecode (bytecode c) @ getDependenciesFromConstructor (abi c)
   \<and> distinct (getDependenciesFromBytecode (bytecode c))
   \<and> distinct (getDependenciesFromConstructor (abi c))
   \<and> count_list (getDependencies c) d
       = (if d \<in> set (getDependenciesFromBytecode (bytecode c)) then 1 else 0)
         + (if d \<in> set (getDependenciesFromConstructor (abi c)) then 1 else 0)"
  by (simp add: getDependencies_def getDependenciesFromBytecode_distinct
      getDependenciesFromConstructor_distinct count_list_distinct)

text \<open>
  C4, as the claim states it, fails: the library \<open>Lib\<close> is named by the bytecode
  and by the constructor of \<open>libUser\<close>, and it occurs twice in the result, not once.
\<close>

theorem getDependencies_duplicate_counterexample:
  "getDependenciesFromBytecode (bytecode libUser) = [''Lib'']
   \<and> getDependenciesFromConstructor (abi libUser) = [''Lib'']
   \<and> getDependencies libUser = [''Lib'', ''Lib'']
   \<and> count_list (getDependencies libUser) ''Lib'' \<noteq> 1"
  by code_simp

section \<open>Properties of the dependency graph\<close>

subsection \<open>The first edge that closes a cycle\<close>

lemma firstCycle_append:
  "firstCycle E (xs @ ys) =
     (case firstCycle E xs of Some e \<Rightarrow> Some e | None \<Rightarrow> firstCycle (E \<union> set xs) ys)"
  by (induction xs arbitrary: E) (auto simp del: acyclic_insert split: option.splits)

lemma firstCycle_None: "acyclic E \<Longrightarrow> firstCycle E es = None \<longleftrightarrow> acyclic (E \<union> set es)"
proof (induction es arbitrary: E)
  case Nil
  then show ?case by simp
next
  case (Cons e es)
  show ?case
  proof (cases "acyclic (insert e E)")
    case True
    with Cons.IH [of "insert e E"] show ?thesis by (simp del: acyclic_insert)
  next
    case False
    then have "\<not> acyclic (E \<union> set (e # es))"
      by (meson acyclic_subset insert_subsetI Un_upper1 UnI2 list.set_intros(1) sup.cobounded1 subsetI insertE UnI1)
    with False show ?thesis by (simp del: acyclic_insert)
  qed
qed

lemma firstCycle_None_empty: "firstCycle {} es = None \<longleftrightarrow> acyclic (set es)"
  using firstCycle_None [of "{}" es] by (simp add: acyclic_def)

lemma firstCycle_Some:
  "firstCycle E es = Some e \<Longrightarrow>
   \<exists>pre post. es = pre @ e # post \<and> firstCycle E pre = None
     \<and> \<not> acyclic (insert e (E \<union> set pre))"
proof (induction es arbitrary: E)
  case Nil
  then show ?case by simp
next
  case (Cons x es)
  show ?case
  proof (cases "acyclic (insert x E)")
    case True
    with Cons.prems have "firstCycle (insert x E) es = Some e" by (simp del: acyclic_insert)
    from Cons.IH [OF this] obtain pre post where
      "es = pre @ e # post" "firstCycle (insert x E) pre = None"
      "\<not> acyclic (insert e (insert x E \<union> set pre))"
      by blast
    with True have "x # es = (x # pre) @ e # post \<and> firstCycle E (x # pre) = None
        \<and> \<not> acyclic (insert e (E \<union> set (x # pre)))"
      by (simp del: acyclic_insert)
    then show ?thesis by blast
  next
    case False
    with Cons.prems have "e = x" by (simp del: acyclic_insert)
    with False have "x # es = [] @ e # es \<and> firstCycle E [] = None
        \<and> \<not> acyclic (insert e (E \<union> set []))"
      by (simp del: acyclic_insert)
    then show ?thesis by blast
  qed
qed

subsection \<open>Graph operations and the two loops\<close>

lemma edges_setNode [simp]: "edges (setNode g v) = edges g"
  by (simp add: setNode_def)

lemma nodes_setNode [simp]: "set (nodes (setNode g v)) = insert v (set (nodes g))"
  by (auto simp: setNode_def hasNode_def)

lemma edges_setEdge [simp]: "set (edges (setEdge g v w)) = insert (v, w) (set (edges g))"
  by (auto simp: setEdge_def Let_def)

lemma nodes_setEdge [simp]: "set (nodes (setEdge g v w)) = insert v (insert w (set (nodes g)))"
  by (auto simp: setEdge_def Let_def)

lemma addDependencies_cycle:
  "firstCycle (set (edges g)) (map (Pair n) ds) = Some e \<Longrightarrow>
   addDependencies g n ds = Inl (CycleError (fst e) (snd e))"
proof (induction ds arbitrary: g)
  case Nil
  then show ?case by simp
next
  case (Cons d ds)
  let ?g2 = "setEdge (if \<not> hasNode g d then setNode g d else g) n d"
  have E2: "set (edges ?g2) = insert (n, d) (set (edges g))"
    by simp
  show ?case
  proof (cases "acyclic (insert (n, d) (set (edges g)))")
    case True
    with Cons.prems have "firstCycle (set (edges ?g2)) (map (Pair n) ds) = Some e"
      by (simp only: E2 list.map firstCycle.simps if_True)
    from Cons.IH [OF this] True show ?thesis
      by (simp add: isAcyclic_def Let_def E2 del: acyclic_insert)
  next
    case False
    with Cons.prems have "e = (n, d)" by (simp del: acyclic_insert)
    with False show ?thesis
      by (simp add: isAcyclic_def Let_def E2 del: acyclic_insert)
  qed
qed

lemma addDependencies_ok:
  "firstCycle (set (edges g)) (map (Pair n) ds) = None \<Longrightarrow>
   \<exists>g'. addDependencies g n ds = Inr g'
     \<and> set (edges g') = set (edges g) \<union> Pair n ` set ds
     \<and> set (nodes g') = set (nodes g) \<union> (if ds = [] then {} else insert n (set ds))"
proof (induction ds arbitrary: g)
  case Nil
  then show ?case by simp
next
  case (Cons d ds)
  let ?g2 = "setEdge (if \<not> hasNode g d then setNode g d else g) n d"
  have E2: "set (edges ?g2) = insert (n, d) (set (edges g))"
    by simp
  have N2: "set (nodes ?g2) = insert n (insert d (set (nodes g)))"
    by simp
  from Cons.prems have ac: "acyclic (insert (n, d) (set (edges g)))"
    by (simp split: if_splits del: acyclic_insert)
  with Cons.prems have "firstCycle (set (edges ?g2)) (map (Pair n) ds) = None"
    by (simp only: E2 list.map firstCycle.simps if_True)
  from Cons.IH [OF this] obtain g' where
    g': "addDependencies ?g2 n ds = Inr g'"
        "set (edges g') = set (edges ?g2) \<union> Pair n ` set ds"
        "set (nodes g') = set (nodes ?g2) \<union> (if ds = [] then {} else insert n (set ds))"
    by blast
  have "addDependencies g n (d # ds) = Inr g'"
    using g'(1) ac by (simp add: isAcyclic_def Let_def E2 del: acyclic_insert)
  moreover have "set (edges g') = set (edges g) \<union> Pair n ` set (d # ds)"
    using g'(2) by (simp only: E2) auto
  moreover have "set (nodes g') = set (nodes g) \<union> (if d # ds = [] then {} else insert n (set (d # ds)))"
    using g'(3) by (simp only: N2) auto
  ultimately show ?case by blast
qed


lemma dependencyEdges_Cons:
  "dependencyEdges (c # cs) = map (Pair (name c)) (getDependencies c) @ dependencyEdges cs"
  by (simp add: dependencyEdges_def)

lemma addContracts_cycle:
  "firstCycle (set (edges g)) (dependencyEdges cs) = Some e \<Longrightarrow>
   addContracts g cs = Inl (CycleError (fst e) (snd e))"
proof (induction cs arbitrary: g)
  case Nil
  then show ?case by (simp add: dependencyEdges_def)
next
  case (Cons c cs)
  let ?g1 = "if \<not> hasNode g (name c) then setNode g (name c) else g"
  let ?own = "map (Pair (name c)) (getDependencies c)"
  have E1: "set (edges ?g1) = set (edges g)"
    by simp
  show ?case
  proof (cases "firstCycle (set (edges ?g1)) ?own")
    case (Some e')
    with Cons.prems have "e' = e"
      by (simp add: dependencyEdges_Cons firstCycle_append E1)
    with Some addDependencies_cycle [of ?g1 "name c" "getDependencies c" e]
    show ?thesis
      by (simp add: Let_def)
  next
    case None
    from addDependencies_ok [OF None] obtain g2 where
      g2: "addDependencies ?g1 (name c) (getDependencies c) = Inr g2"
          "set (edges g2) = set (edges ?g1) \<union> Pair (name c) ` set (getDependencies c)"
      by blast
    from None Cons.prems have "firstCycle (set (edges g2)) (dependencyEdges cs) = Some e"
      by (simp add: dependencyEdges_Cons firstCycle_append g2(2) E1)
    from Cons.IH [OF this] g2(1) show ?thesis
      by (simp add: Let_def)
  qed
qed

lemma addContracts_ok:
  "firstCycle (set (edges g)) (dependencyEdges cs) = None \<Longrightarrow>
   \<exists>g'. addContracts g cs = Inr g'
     \<and> set (edges g') = set (edges g) \<union> set (dependencyEdges cs)
     \<and> set (nodes g') = set (nodes g) \<union> name ` set cs \<union> snd ` set (dependencyEdges cs)"
proof (induction cs arbitrary: g)
  case Nil
  then show ?case by (simp add: dependencyEdges_def)
next
  case (Cons c cs)
  let ?g1 = "if \<not> hasNode g (name c) then setNode g (name c) else g"
  let ?own = "map (Pair (name c)) (getDependencies c)"
  have E1: "set (edges ?g1) = set (edges g)"
    by simp
  have N1: "set (nodes ?g1) = insert (name c) (set (nodes g))"
    by (auto simp: hasNode_def)
  from Cons.prems have own: "firstCycle (set (edges ?g1)) ?own = None"
    by (simp add: dependencyEdges_Cons firstCycle_append E1 split: option.splits)
  from addDependencies_ok [OF own] obtain g2 where
    g2: "addDependencies ?g1 (name c) (getDependencies c) = Inr g2"
        "set (edges g2) = set (edges ?g1) \<union> Pair (name c) ` set (getDependencies c)"
        "set (nodes g2) = set (nodes ?g1)
           \<union> (if getDependencies c = [] then {} else insert (name c) (set (getDependencies c)))"
    by blast
  from own Cons.prems have "firstCycle (set (edges g2)) (dependencyEdges cs) = None"
    by (simp add: dependencyEdges_Cons firstCycle_append g2(2) E1)
  from Cons.IH [OF this] obtain g' where
    g': "addContracts g2 cs = Inr g'"
        "set (edges g') = set (edges g2) \<union> set (dependencyEdges cs)"
        "set (nodes g') = set (nodes g2) \<union> name ` set cs \<union> snd ` set (dependencyEdges cs)"
    by blast
  have "addContracts g (c # cs) = Inr g'"
    using g2(1) g'(1) by (simp add: Let_def)
  moreover have "set (edges g') = set (edges g) \<union> set (dependencyEdges (c # cs))"
    using g'(2) g2(2) by (simp only: E1 dependencyEdges_Cons set_append set_map) auto
  moreover have "snd ` Pair (name c) ` set (getDependencies c) = set (getDependencies c)"
    by force
  then have "set (nodes g') = set (nodes g) \<union> name ` set (c # cs)
      \<union> snd ` set (dependencyEdges (c # cs))"
    using g'(3) g2(3)
    by (simp only: N1 dependencyEdges_Cons set_append set_map image_Un) auto
  ultimately show ?case by blast
qed

lemma buildDependencyGraph_ok:
  assumes "acyclic (set (dependencyEdges cs))"
  shows "\<exists>g. buildDependencyGraph cs = Inr g
     \<and> set (edges g) = set (dependencyEdges cs)
     \<and> set (nodes g) = name ` set cs \<union> snd ` set (dependencyEdges cs)"
proof -
  have "firstCycle (set (edges Graph)) (dependencyEdges cs) = None"
    using assms by (simp add: firstCycle_None_empty Graph_def)
  from addContracts_ok [OF this] show ?thesis
    by (simp add: buildDependencyGraph_def Graph_def)
qed

lemma buildDependencyGraph_cycle:
  assumes "dependencyEdges cs = pre @ (a, b) # post"
    and "acyclic (set pre)" and "\<not> acyclic (insert (a, b) (set pre))"
  shows "buildDependencyGraph cs = Inl (CycleError a b)"
proof -
  have "firstCycle {} pre = None"
    using assms(2) by (simp add: firstCycle_None_empty)
  then have "firstCycle {} (dependencyEdges cs) = Some (a, b)"
    using assms(1,3) by (simp add: firstCycle_append del: acyclic_insert)
  then have "firstCycle (set (edges Graph)) (dependencyEdges cs) = Some (a, b)"
    by (simp add: Graph_def)
  from addContracts_cycle [OF this] show ?thesis
    by (simp add: buildDependencyGraph_def)
qed

lemma cyclic_first_edge:
  assumes "\<not> acyclic (set (es :: (string \<times> string) list))"
  shows "\<exists>pre a b post. es = pre @ (a, b) # post \<and> acyclic (set pre)
     \<and> \<not> acyclic (insert (a, b) (set pre))"
proof -
  have "firstCycle {} es \<noteq> None"
    using assms by (simp add: firstCycle_None_empty)
  then obtain e where "firstCycle {} es = Some e"
    by blast
  from firstCycle_Some [OF this] obtain pre post where
    "es = pre @ e # post" "firstCycle {} pre = None" "\<not> acyclic (insert e (set pre))"
    by auto
  then have "es = pre @ (fst e, snd e) # post \<and> acyclic (set pre)
     \<and> \<not> acyclic (insert (fst e, snd e) (set pre))"
    by (simp add: firstCycle_None_empty del: acyclic_insert)
  then show ?thesis by blast
qed

lemma addDependencies_acyclic:
  assumes "acyclic (set (edges g))" and "addDependencies g n ds = Inr g'"
  shows "acyclic (set (edges g'))"
proof (cases "firstCycle (set (edges g)) (map (Pair n) ds)")
  case None
  from addDependencies_ok [OF None] assms(2)
  have "set (edges g') = set (edges g) \<union> set (map (Pair n) ds)"
    by auto
  with None assms(1) show ?thesis
    by (simp only: firstCycle_None [OF assms(1), symmetric])
next
  case (Some e)
  from addDependencies_cycle [OF Some] assms(2) show ?thesis
    by simp
qed

lemma buildDependencyGraph_acyclic:
  assumes "buildDependencyGraph cs = Inr g"
  shows "acyclic (set (edges g))"
proof (cases "firstCycle (set (edges Graph)) (dependencyEdges cs)")
  case None
  from addContracts_ok [OF None] assms
  have "set (edges g) = set (dependencyEdges cs)"
    by (auto simp: buildDependencyGraph_def Graph_def)
  with None show ?thesis
    by (simp add: Graph_def firstCycle_None_empty)
next
  case (Some e)
  from addContracts_cycle [OF Some] assms show ?thesis
    by (simp add: buildDependencyGraph_def)
qed

text \<open>
  The two models of the loops agree: the function returns the graph it is left
  with, or throws the exception it is left with.
\<close>

lemma addDependencies_state_result:
  "addDependencies g n ds =
     (case addDependencies_state g n ds of (g', None) \<Rightarrow> Inr g' | (g', Some e) \<Rightarrow> Inl e)"
  by (induction ds arbitrary: g) (simp_all add: Let_def)

lemma addContracts_state_result:
  "addContracts g cs =
     (case addContracts_state g cs of (g', None) \<Rightarrow> Inr g' | (g', Some e) \<Rightarrow> Inl e)"
proof (induction cs arbitrary: g)
  case Nil
  show ?case by simp
next
  case (Cons c cs)
  show ?case
    by (simp add: Let_def addDependencies_state_result Cons.IH split: prod.splits option.splits)
qed

lemma buildDependencyGraph_state_result:
  "buildDependencyGraph cs =
     (case buildDependencyGraph_state cs of (g', None) \<Rightarrow> Inr g' | (g', Some e) \<Rightarrow> Inl e)"
  by (simp add: buildDependencyGraph_def buildDependencyGraph_state_def addContracts_state_result)

lemma addDependencies_state_exit:
  "acyclic (set (edges g)) \<Longrightarrow> exit_state_ok (addDependencies_state g n ds)"
proof (induction ds arbitrary: g)
  case Nil
  then show ?case by (simp add: exit_state_ok_def)
next
  case (Cons d ds)
  let ?g2 = "setEdge (if \<not> hasNode g d then setNode g d else g) n d"
  have E2: "set (edges ?g2) = insert (n, d) (set (edges g))"
    by simp
  show ?case
  proof (cases "acyclic (insert (n, d) (set (edges g)))")
    case True
    then have "acyclic (set (edges ?g2))"
      by (simp only: E2)
    from Cons.IH [OF this] True show ?thesis
      by (simp add: isAcyclic_def Let_def E2 del: acyclic_insert)
  next
    case False
    have "set (edges ?g2) - {(n, d)} \<subseteq> set (edges g)"
      by (auto simp only: E2)
    with Cons.prems have "acyclic (set (edges ?g2) - {(n, d)})"
      by (rule acyclic_subset)
    moreover have "(n, d) \<in> set (edges ?g2)" "\<not> acyclic (set (edges ?g2))"
      using False by (simp_all only: E2 insertI1 not_False_eq_True)
    ultimately have "exit_state_ok (?g2, Some (CycleError n d))"
      unfolding exit_state_ok_def by (simp only: prod.case option.case) blast
    with False show ?thesis
      by (simp add: isAcyclic_def Let_def E2 del: acyclic_insert)
  qed
qed

lemma addContracts_state_exit:
  "acyclic (set (edges g)) \<Longrightarrow> exit_state_ok (addContracts_state g cs)"
proof (induction cs arbitrary: g)
  case Nil
  then show ?case by (simp add: exit_state_ok_def)
next
  case (Cons c cs)
  let ?g1 = "if \<not> hasNode g (name c) then setNode g (name c) else g"
  have "acyclic (set (edges ?g1))"
    using Cons.prems by simp
  then have own: "exit_state_ok (addDependencies_state ?g1 (name c) (getDependencies c))"
    by (rule addDependencies_state_exit)
  obtain g2 r where st: "addDependencies_state ?g1 (name c) (getDependencies c) = (g2, r)"
    by (cases "addDependencies_state ?g1 (name c) (getDependencies c)")
  show ?case
  proof (cases r)
    case None
    with own st have "acyclic (set (edges g2))"
      by (simp add: exit_state_ok_def)
    from Cons.IH [OF this] st None show ?thesis
      by (simp add: Let_def)
  next
    case (Some e)
    with own st show ?thesis
      by (simp add: Let_def)
  qed
qed

lemma buildDependencyGraph_state_exit: "exit_state_ok (buildDependencyGraph_state cs)"
  unfolding buildDependencyGraph_state_def
  by (rule addContracts_state_exit) (simp add: Graph_def acyclic_def)

text \<open>
  C7, as the code has it. The edge is added first and checked afterwards. From an
  acyclic graph, when the edge \<open>(a, b)\<close> closes a cycle, the loop throws the error
  that names \<open>a\<close> and \<open>b\<close>, whatever dependencies would follow; the local graph
  then holds the edge and is cyclic, and no graph is returned. When the edge closes
  no cycle, the loop goes on with the graph that holds it, which is acyclic. So
  every graph the inner loop returns is acyclic; and when \<open>buildDependencyGraph\<close>
  is left, either it returns its local graph, which is acyclic, or it throws, the
  error names an edge of the local graph, that graph is cyclic, and it is acyclic
  without that edge.
\<close>

theorem edge_insertion_checked_after_adding:
  assumes "acyclic (set (edges g))"
  shows "(\<not> acyclic (insert (a, b) (set (edges g))) \<longrightarrow>
            (\<exists>g'. addDependencies_state g a (b # deps) = (g', Some (CycleError a b))
                 \<and> set (edges g') = insert (a, b) (set (edges g))
                 \<and> \<not> acyclic (set (edges g')))
          \<and> addDependencies g a (b # deps) = Inl (CycleError a b))
       \<and> (acyclic (insert (a, b) (set (edges g))) \<longrightarrow>
            (\<exists>g'. addDependencies_state g a [b] = (g', None)
                 \<and> addDependencies g a [b] = Inr g'
                 \<and> set (edges g') = insert (a, b) (set (edges g))
                 \<and> acyclic (set (edges g'))))
       \<and> (\<forall>g'. addDependencies g a deps = Inr g' \<longrightarrow> acyclic (set (edges g')))
       \<and> (case buildDependencyGraph_state cs of
             (g', None) \<Rightarrow> buildDependencyGraph cs = Inr g' \<and> acyclic (set (edges g'))
           | (g', Some e) \<Rightarrow>
               buildDependencyGraph cs = Inl e
             \<and> (\<exists>x y. e = CycleError x y \<and> (x, y) \<in> set (edges g')
                    \<and> \<not> acyclic (set (edges g'))
                    \<and> acyclic (set (edges g') - {(x, y)})))"
proof (intro conjI impI allI)
  let ?g' = "setEdge (if \<not> hasNode g b then setNode g b else g) a b"
  have E: "set (edges ?g') = insert (a, b) (set (edges g))"
    by simp
  {
    assume cyc: "\<not> acyclic (insert (a, b) (set (edges g)))"
    then have "addDependencies_state g a (b # deps) = (?g', Some (CycleError a b))"
      by (simp add: isAcyclic_def Let_def E del: acyclic_insert)
    with cyc E show "\<exists>g'. addDependencies_state g a (b # deps) = (g', Some (CycleError a b))
        \<and> set (edges g') = insert (a, b) (set (edges g)) \<and> \<not> acyclic (set (edges g'))"
      by (intro exI [of _ ?g']) (simp del: acyclic_insert)
    from cyc show "addDependencies g a (b # deps) = Inl (CycleError a b)"
      by (simp add: isAcyclic_def Let_def E del: acyclic_insert)
  }
  {
    assume ac: "acyclic (insert (a, b) (set (edges g)))"
    then have "addDependencies_state g a [b] = (?g', None)" "addDependencies g a [b] = Inr ?g'"
      by (simp_all add: isAcyclic_def Let_def E del: acyclic_insert)
    with ac E show "\<exists>g'. addDependencies_state g a [b] = (g', None)
        \<and> addDependencies g a [b] = Inr g'
        \<and> set (edges g') = insert (a, b) (set (edges g)) \<and> acyclic (set (edges g'))"
      by (intro exI [of _ ?g']) (simp del: acyclic_insert)
  }
  {
    fix g' assume "addDependencies g a deps = Inr g'"
    with assms show "acyclic (set (edges g'))"
      by (rule addDependencies_acyclic)
  }
  show "case buildDependencyGraph_state cs of
          (g', None) \<Rightarrow> buildDependencyGraph cs = Inr g' \<and> acyclic (set (edges g'))
        | (g', Some e) \<Rightarrow>
            buildDependencyGraph cs = Inl e
          \<and> (\<exists>x y. e = CycleError x y \<and> (x, y) \<in> set (edges g')
                 \<and> \<not> acyclic (set (edges g'))
                 \<and> acyclic (set (edges g') - {(x, y)}))"
    using buildDependencyGraph_state_exit [of cs] buildDependencyGraph_state_result [of cs]
    by (auto simp: exit_state_ok_def split: prod.splits option.splits)
qed

theorem edge_insertion_checked_after_adding_witness:
  "acyclic (set (edges \<lparr>nodes = [''A'', ''B''], edges = [(''A'', ''B'')]\<rparr>))
   \<and> (\<exists>g'. addDependencies_state \<lparr>nodes = [''A'', ''B''], edges = [(''A'', ''B'')]\<rparr>
               ''B'' [''A'', ''C'']
             = (g', Some (CycleError ''B'' ''A''))
         \<and> set (edges g')
             = insert (''B'', ''A'') (set (edges \<lparr>nodes = [''A'', ''B''], edges = [(''A'', ''B'')]\<rparr>))
         \<and> \<not> acyclic (set (edges g')))
   \<and> addDependencies \<lparr>nodes = [''A'', ''B''], edges = [(''A'', ''B'')]\<rparr> ''B'' [''A'', ''C'']
        = Inl (CycleError ''B'' ''A'')
   \<and> (\<exists>g'. addDependencies \<lparr>nodes = [''A'', ''B''], edges = [(''A'', ''B'')]\<rparr> ''B'' [''C''] = Inr g'
         \<and> set (edges g')
             = insert (''B'', ''C'') (set (edges \<lparr>nodes = [''A'', ''B''], edges = [(''A'', ''B'')]\<rparr>))
         \<and> acyclic (set (edges g')))
   \<and> buildDependencyGraph [contractA, libraryB]
        = Inr \<lparr>nodes = [''A'', ''B''], edges = [(''A'', ''B'')]\<rparr>
   \<and> acyclic (set (edges \<lparr>nodes = [''A'', ''B''], edges = [(''A'', ''B'')]\<rparr>))"
proof -
  let ?g = "\<lparr>nodes = [''A'', ''B''], edges = [(''A'', ''B'')]\<rparr>"
  have h: "acyclic (set (edges ?g))"
    by code_simp
  have cyc: "\<not> acyclic (insert (''B'', ''A'') (set (edges ?g)))"
    by code_simp
  have ok: "acyclic (insert (''B'', ''C'') (set (edges ?g)))"
    by code_simp
  have st: "buildDependencyGraph_state [contractA, libraryB] = (?g, None)"
    by code_simp
  note T = edge_insertion_checked_after_adding
             [OF h, of "''B''" "''A''" "[''C'']" "[contractA, libraryB]"]
  from T [THEN conjunct1] cyc
  have 1: "\<exists>g'. addDependencies_state ?g ''B'' [''A'', ''C''] = (g', Some (CycleError ''B'' ''A''))
         \<and> set (edges g') = insert (''B'', ''A'') (set (edges ?g))
         \<and> \<not> acyclic (set (edges g'))"
    and 2: "addDependencies ?g ''B'' [''A'', ''C''] = Inl (CycleError ''B'' ''A'')"
    by (simp_all only: not_False_eq_True simp_thms)
  from T [THEN conjunct2, THEN conjunct2, THEN conjunct2]
  have 4: "buildDependencyGraph [contractA, libraryB] = Inr ?g"
    by (simp only: st prod.case option.case)
  note U = edge_insertion_checked_after_adding [OF h, of "''B''" "''C''" "[]" "[]"]
  from U [THEN conjunct2, THEN conjunct1] ok
  have 5: "\<exists>g'. addDependencies ?g ''B'' [''C''] = Inr g'
         \<and> set (edges g') = insert (''B'', ''C'') (set (edges ?g)) \<and> acyclic (set (edges g'))"
    by (simp only: simp_thms) blast
  from h 1 2 4 5 show ?thesis
    by (intro conjI)
qed

text \<open>
  C7, as the claim states it, fails: for the two contracts that refer to each
  other, the graph that \<open>buildDependencyGraph\<close> is left with at the throw retains
  the edge from \<open>Pong\<close> to \<open>Ping\<close> and is cyclic.
\<close>

theorem edge_retained_at_throw_counterexample:
  "buildDependencyGraph_state [ping, pong]
     = (\<lparr>nodes = [''Ping'', ''Pong''], edges = [(''Ping'', ''Pong''), (''Pong'', ''Ping'')]\<rparr>,
        Some (CycleError ''Pong'' ''Ping''))
   \<and> (''Pong'', ''Ping'') \<in> set (edges (fst (buildDependencyGraph_state [ping, pong])))
   \<and> \<not> acyclic (set (edges (fst (buildDependencyGraph_state [ping, pong]))))"
  by code_simp

text \<open>
  C3. When the dependency edges of the contracts hold a cycle, the sequence of edges
  splits at the first edge \<open>(a, b)\<close> that closes a cycle over the edges before it,
  and \<open>buildDependencyGraph\<close> fails with the error that names \<open>a\<close> and \<open>b\<close>. The
  edges and contracts after that edge play no part: every list of contracts whose
  edges start in the same way fails with the same error. The exception leaves
  \<open>sortByDependencies\<close> and the run as well, and the run has sent no transaction.
  A contract that depends on itself is the case \<open>a = b\<close>.
\<close>

theorem cycle_rejected:
  assumes "\<not> acyclic (set (dependencyEdges cs))"
  shows "\<exists>pre a b post.
           dependencyEdges cs = pre @ (a, b) # post
         \<and> acyclic (set pre) \<and> \<not> acyclic (set (pre @ [(a, b)]))
         \<and> buildDependencyGraph cs = Inl (CycleError a b)
         \<and> (\<forall>cs'. take (Suc (length pre)) (dependencyEdges cs') = pre @ [(a, b)]
                \<longrightarrow> buildDependencyGraph cs' = Inl (CycleError a b))
         \<and> sortByDependencies cs = Inl (CycleError a b)
         \<and> module_exports cfg cs = \<lparr>promises = [], thrown = Some (CycleError a b)\<rparr>"
proof -
  from cyclic_first_edge [OF assms] obtain pre a b post where
    *: "dependencyEdges cs = pre @ (a, b) # post" "acyclic (set pre)"
       "\<not> acyclic (insert (a, b) (set pre))"
    by blast
  have build: "buildDependencyGraph cs = Inl (CycleError a b)"
    using * by (rule buildDependencyGraph_cycle)
  have other: "buildDependencyGraph cs' = Inl (CycleError a b)"
    if "take (Suc (length pre)) (dependencyEdges cs') = pre @ [(a, b)]" for cs'
  proof -
    have "dependencyEdges cs' = (pre @ [(a, b)]) @ drop (Suc (length pre)) (dependencyEdges cs')"
      using that append_take_drop_id [of "Suc (length pre)" "dependencyEdges cs'"] by simp
    then have "dependencyEdges cs' = pre @ (a, b) # drop (Suc (length pre)) (dependencyEdges cs')"
      by simp
    then show ?thesis
      using *(2,3) by (rule buildDependencyGraph_cycle)
  qed
  have "sortByDependencies cs = Inl (CycleError a b)"
    by (simp add: sortByDependencies_def build)
  moreover from this have "module_exports cfg cs = \<lparr>promises = [], thrown = Some (CycleError a b)\<rparr>"
    by (simp add: module_exports_def)
  moreover have "\<not> acyclic (set (pre @ [(a, b)]))"
    using *(3) by (simp del: acyclic_insert)
  ultimately show ?thesis
    using * build other by blast
qed

text \<open>A contract whose bytecode refers to the contract itself is rejected in the same way.\<close>

lemma self_dependency_rejected:
  "buildDependencyGraph [libraryB\<lparr>bytecode := ''60__B__''\<rparr>] = Inl (CycleError ''B'' ''B'')"
  by code_simp

theorem cycle_rejected_witness:
  "\<not> acyclic (set (dependencyEdges [ping, pong]))
   \<and> (\<exists>pre a b post.
           dependencyEdges [ping, pong] = pre @ (a, b) # post
         \<and> acyclic (set pre) \<and> \<not> acyclic (set (pre @ [(a, b)]))
         \<and> buildDependencyGraph [ping, pong] = Inl (CycleError a b)
         \<and> (\<forall>cs'. take (Suc (length pre)) (dependencyEdges cs') = pre @ [(a, b)]
                \<longrightarrow> buildDependencyGraph cs' = Inl (CycleError a b))
         \<and> sortByDependencies [ping, pong] = Inl (CycleError a b)
         \<and> module_exports exampleConfig [ping, pong]
              = \<lparr>promises = [], thrown = Some (CycleError a b)\<rparr>)
   \<and> buildDependencyGraph [ping, pong] = Inl (CycleError ''Pong'' ''Ping'')"
proof -
  have h: "\<not> acyclic (set (dependencyEdges [ping, pong]))"
    by code_simp
  have "buildDependencyGraph [ping, pong] = Inl (CycleError ''Pong'' ''Ping'')"
    by code_simp
  with h cycle_rejected [OF h, of exampleConfig] show ?thesis
    by blast
qed


section \<open>Properties of the deployment order\<close>

subsection \<open>The traversal\<close>

lemma ordered_snoc: "ordered E (acc @ [v]) \<longleftrightarrow> ordered E acc \<and> E `` {v} \<subseteq> set acc"
  by (auto simp: ordered_def nth_append less_Suc_eq all_conj_distrib)

lemma set_successors: "set (successors g v) = set (edges g) `` {v}"
  by (auto simp: successors_def image_iff)

lemma stack_ok_shrink:
  "stack_ok E vis A st \<Longrightarrow> A' \<subseteq> A \<Longrightarrow> A \<subseteq> A' \<union> vis \<Longrightarrow> stack_ok E vis A' st"
proof (induction st arbitrary: A A')
  case Nil
  then show ?case by simp
next
  case (Cons f st)
  show ?case
  proof (cases f)
    case (Visit w)
    with Cons.prems have "stack_ok E vis (insert w A) st" by simp
    moreover have "insert w A' \<subseteq> insert w A" "insert w A \<subseteq> insert w A' \<union> vis"
      using Cons.prems(2,3) by auto
    ultimately have "stack_ok E vis (insert w A') st"
      by (rule Cons.IH)
    with Visit show ?thesis by simp
  next
    case (Finish u)
    with Cons.prems have "stack_ok E vis (insert u A) st" by simp
    moreover have "insert u A' \<subseteq> insert u A" "insert u A \<subseteq> insert u A' \<union> vis"
      using Cons.prems(2,3) by auto
    ultimately have "stack_ok E vis (insert u A') st"
      by (rule Cons.IH)
    with Finish Cons.prems show ?thesis by auto
  qed
qed

lemma stack_ok_mono:
  "stack_ok E vis A st \<Longrightarrow> vis \<subseteq> vis' \<Longrightarrow> stack_ok E vis' A st"
proof (induction st arbitrary: A)
  case Nil
  then show ?case by simp
next
  case (Cons f st)
  then show ?case by (cases f) auto
qed

lemma stack_ok_grow:
  "stack_ok E vis A st \<Longrightarrow> v \<in> A \<Longrightarrow> stack_ok E vis (A \<union> E `` {v}) st"
proof (induction st arbitrary: A)
  case Nil
  then show ?case by simp
next
  case (Cons f st)
  show ?case
  proof (cases f)
    case (Visit w)
    with Cons.prems have "stack_ok E vis (insert w A) st" "v \<in> insert w A" by simp_all
    then have "stack_ok E vis (insert w A \<union> E `` {v}) st"
      by (rule Cons.IH)
    with Visit show ?thesis by simp
  next
    case (Finish u)
    with Cons.prems have "stack_ok E vis (insert u A) st" "v \<in> insert u A" by simp_all
    then have "stack_ok E vis (insert u A \<union> E `` {v}) st"
      by (rule Cons.IH)
    moreover have "(u, x) \<in> E\<^sup>+" if "x \<in> A \<union> E `` {v}" for x
    proof (cases "x \<in> A")
      case True
      with Finish Cons.prems show ?thesis by simp
    next
      case False
      with that have "(v, x) \<in> E" by auto
      moreover from Finish Cons.prems have "(u, v) \<in> E\<^sup>+" by simp
      ultimately show ?thesis by (rule trancl_into_trancl [rotated])
    qed
    moreover from Finish Cons.prems have "E `` {u} \<subseteq> vis \<union> (A \<union> E `` {v})"
      by auto
    ultimately show ?thesis
      using Finish by simp
  qed
qed

lemma stack_ok_visits:
  "stack_ok E vis A (map Visit ws @ st) = stack_ok E vis (A \<union> set ws) st"
  by (induction ws arbitrary: A) simp_all

lemma stack_ok_reach:
  "stack_ok E vis A st \<Longrightarrow> u \<in> set (finishing st) \<Longrightarrow> x \<in> A \<Longrightarrow> (u, x) \<in> E\<^sup>+"
proof (induction st arbitrary: A)
  case Nil
  then show ?case by simp
next
  case (Cons f st)
  then show ?case by (cases f) auto
qed

lemma finishing_visits [simp]: "finishing (map Visit ws @ st) = finishing st"
  by (induction ws) simp_all

lemma dfs_ordered:
  "stack_ok (set (edges g)) vis {} st \<Longrightarrow> vis = set acc \<union> set (finishing st) \<Longrightarrow>
   distinct (acc @ finishing st) \<Longrightarrow> ordered (set (edges g)) acc \<Longrightarrow>
   acyclic (set (edges g)) \<Longrightarrow>
   distinct (dfs g st vis acc) \<and> ordered (set (edges g)) (dfs g st vis acc)"
proof (induction g st vis acc rule: dfs.induct)
  case (1 g visited acc)
  then show ?case by simp
next
  case (2 g v stack visited acc)
  let ?E = "set (edges g)"
  show ?case
  proof (cases "v \<in> visited")
    case True
    from "2.prems"(1) have "stack_ok ?E visited {v} stack" by simp
    moreover have "{} \<subseteq> {v}" "{v} \<subseteq> {} \<union> visited"
      using True by auto
    ultimately have "stack_ok ?E visited {} stack"
      by (rule stack_ok_shrink)
    with True "2.IH"(1) "2.prems" show ?thesis by simp
  next
    case False
    let ?st = "map Visit (successors g v) @ Finish v # stack"
    from "2.prems"(1) have "stack_ok ?E visited {v} stack" by simp
    then have "stack_ok ?E (insert v visited) {v} stack"
      by (rule stack_ok_mono) auto
    then have "stack_ok ?E (insert v visited) ({v} \<union> ?E `` {v}) stack"
      by (rule stack_ok_grow) simp
    then have "stack_ok ?E (insert v visited) (set (successors g v)) (Finish v # stack)"
      by (auto simp: set_successors)
    then have "stack_ok ?E (insert v visited) {} ?st"
      by (simp only: stack_ok_visits Un_empty_left)
    moreover have "insert v visited = set acc \<union> set (finishing ?st)"
      using "2.prems"(2) by simp
    moreover have "distinct (acc @ finishing ?st)"
      using "2.prems"(2,3) False by simp
    ultimately show ?thesis
      using False "2.IH"(2) "2.prems"(4,5) by simp
  qed
next
  case (3 g v stack visited acc)
  let ?E = "set (edges g)"
  from "3.prems"(1) have ok: "stack_ok ?E visited {v} stack" and sub: "?E `` {v} \<subseteq> visited"
    by simp_all
  have "w \<in> set acc" if w: "w \<in> ?E `` {v}" for w
  proof (rule ccontr)
    assume "w \<notin> set acc"
    with w sub "3.prems"(2) have "w = v \<or> w \<in> set (finishing stack)"
      by auto
    then have "(w, v) \<in> ?E\<^sup>*"
      using stack_ok_reach [OF ok, of w v] by auto
    moreover from w have "(v, w) \<in> ?E" by simp
    ultimately have "(v, v) \<in> ?E\<^sup>+"
      by (rule rtrancl_into_trancl2 [rotated])
    with "3.prems"(5) show False
      by (simp add: acyclic_def)
  qed
  then have "ordered ?E (acc @ [v])"
    using "3.prems"(4) by (auto simp: ordered_snoc)
  moreover have "{} \<subseteq> {v}" "{v} \<subseteq> {} \<union> visited"
    using "3.prems"(2) by auto
  with ok have "stack_ok ?E visited {} stack"
    by (rule stack_ok_shrink)
  moreover have "visited = set (acc @ [v]) \<union> set (finishing stack)"
    using "3.prems"(2) by auto
  moreover have "distinct ((acc @ [v]) @ finishing stack)"
    using "3.prems"(3) by simp
  ultimately show ?case
    using "3.IH" "3.prems"(5) by simp
qed

lemma visiting_visits [simp]: "visiting (map Visit ws @ st) = set ws \<union> visiting st"
  by (induction ws) auto

lemma dfs_superset:
  "set acc \<union> set (finishing st) \<union> (visiting st - vis) \<subseteq> set (dfs g st vis acc)"
proof (induction g st vis acc rule: dfs.induct)
  case (1 g visited acc)
  show ?case by simp
next
  case (2 g v stack visited acc)
  then show ?case by (cases "v \<in> visited") auto
next
  case (3 g v stack visited acc)
  then show ?case by auto
qed

lemma dfs_subset:
  "set (dfs g st vis acc)
     \<subseteq> set acc \<union> set (finishing st) \<union> visiting st \<union> snd ` set (edges g)"
proof (induction g st vis acc rule: dfs.induct)
  case (1 g visited acc)
  show ?case by simp
next
  case (2 g v stack visited acc)
  show ?case
  proof (cases "v \<in> visited")
    case True
    with 2 show ?thesis by auto
  next
    case False
    have "set (successors g v) \<subseteq> snd ` set (edges g)"
      by (auto simp: successors_def)
    with False "2.IH"(2) show ?thesis by auto
  qed
next
  case (3 g v stack visited acc)
  then show ?case by auto
qed

lemma visiting_roots [simp]: "visiting (map Visit vs) = set vs"
  using visiting_visits [of vs "[]"] by simp

lemma finishing_roots [simp]: "finishing (map Visit vs) = []"
  using finishing_visits [of vs "[]"] by simp

lemma stack_ok_roots: "stack_ok E vis A (map Visit vs)"
  using stack_ok_visits [of E vis A vs "[]"] by simp

lemma postorder_topological:
  assumes "acyclic (set (edges g))" and "snd ` set (edges g) \<subseteq> set vs"
  shows "distinct (postorder g vs)" and "set (postorder g vs) = set vs"
    and "ordered (set (edges g)) (postorder g vs)"
proof -
  have "distinct (dfs g (map Visit vs) {} []) \<and> ordered (set (edges g)) (dfs g (map Visit vs) {} [])"
    by (rule dfs_ordered) (simp_all add: stack_ok_roots ordered_def assms(1))
  then show "distinct (postorder g vs)" "ordered (set (edges g)) (postorder g vs)"
    by (simp_all add: postorder_def)
  show "set (postorder g vs) = set vs"
    using dfs_superset [of "[]" "map Visit vs" "{}" g] dfs_subset [of g "map Visit vs" "{}" "[]"] assms(2)
    by (auto simp: postorder_def)
qed

subsection \<open>The order\<close>

lemma ordered_indexOf:
  assumes "ordered E ord" and "distinct ord" and "(a, b) \<in> E" and "a \<in> set ord"
  shows "0 \<le> indexOf ord b \<and> indexOf ord b < indexOf ord a"
proof -
  from assms(4) obtain i where i: "i < length ord" "ord ! i = a"
    by (auto simp: in_set_conv_nth)
  with assms(1,3) have b: "b \<in> set (take i ord)"
    by (auto simp: ordered_def)
  have "indexOf ord b = indexOf (take i ord @ drop i ord) b"
    by simp
  also have "\<dots> = indexOf (take i ord) b"
    using b by (simp only: indexOf_append if_True)
  finally have "indexOf ord b = indexOf (take i ord) b" .
  moreover have "0 \<le> indexOf (take i ord) b \<and> indexOf (take i ord) b < int (length (take i ord))"
    using b indexOf_range [of b "take i ord"] by blast
  moreover have "indexOf ord a = int i"
    using indexOf_nth [OF assms(2) i(1)] i(2) by simp
  ultimately show ?thesis
    using i(1) by simp
qed

lemma sorted_positions:
  assumes "sorted (map f ys)" and "i < length ys" and "j < length ys"
    and "f (ys ! j) < f (ys ! i)"
  shows "j < i"
proof (rule ccontr)
  assume "\<not> j < i"
  then have "i \<le> j" by simp
  with assms(1,3) have "map f ys ! i \<le> map f ys ! j"
    by (intro sorted_nth_mono) simp_all
  with assms(2,3,4) show False by simp
qed

text \<open>
  C1. When the dependency edges of the contracts hold no cycle,
  \<open>buildDependencyGraph\<close> returns a graph and \<open>sortByDependencies\<close> returns. The
  post-order traversal of the graph, \<open>dependsOrdering\<close> in the source, lists every
  node once, the nodes being the contract names and the names they depend on, and
  for every dependency edge from \<open>a\<close> to \<open>b\<close> the position of \<open>b\<close> in it is less
  than the position of \<open>a\<close>. The sorted array is a permutation of the contracts in
  which a contract that another one depends on stands before it.
\<close>

theorem deployment_order_topological:
  assumes "acyclic (set (dependencyEdges cs))"
  shows "\<exists>g deployed.
       buildDependencyGraph cs = Inr g \<and> sortByDependencies cs = Inr deployed
     \<and> distinct (postorder g (nodes g))
     \<and> set (postorder g (nodes g)) = name ` set cs \<union> snd ` set (dependencyEdges cs)
     \<and> (\<forall>(a, b) \<in> set (dependencyEdges cs).
           0 \<le> indexOf (postorder g (nodes g)) b
         \<and> indexOf (postorder g (nodes g)) b < indexOf (postorder g (nodes g)) a)
     \<and> mset deployed = mset cs
     \<and> (\<forall>i<length deployed. \<forall>j<length deployed.
           name (deployed ! j) \<in> set (getDependencies (deployed ! i)) \<longrightarrow> j < i)"
proof -
  from buildDependencyGraph_ok [OF assms] obtain g where
    g: "buildDependencyGraph cs = Inr g" "set (edges g) = set (dependencyEdges cs)"
       "set (nodes g) = name ` set cs \<union> snd ` set (dependencyEdges cs)"
    by blast
  define ord where "ord = postorder g (nodes g)"
  define deployed where "deployed = sort_key (\<lambda>a. indexOf ord (name a)) cs"
  have ac: "acyclic (set (edges g))"
    using assms g(2) by simp
  have targets: "snd ` set (edges g) \<subseteq> set (nodes g)"
    using g(2,3) by auto
  have dist: "distinct ord" and nodes: "set ord = set (nodes g)"
    and ordd: "ordered (set (edges g)) ord"
    unfolding ord_def using postorder_topological [OF ac targets] by blast+
  have edge: "0 \<le> indexOf ord b \<and> indexOf ord b < indexOf ord a"
    if "(a, b) \<in> set (dependencyEdges cs)" for a b
  proof -
    from that have "a \<in> name ` set cs"
      by (auto simp: dependencyEdges_def)
    then have "a \<in> set ord"
      using nodes g(3) by simp
    with ordd dist that g(2) show ?thesis
      by (simp add: ordered_indexOf [of "set (edges g)" ord a b])
  qed
  have sort: "sortByDependencies cs = Inr deployed"
    by (simp add: sortByDependencies_def g(1) deployed_def ord_def)
  have perm: "mset deployed = mset cs"
    by (simp add: deployed_def)
  have pos: "j < i" if "i < length deployed" "j < length deployed"
    "name (deployed ! j) \<in> set (getDependencies (deployed ! i))" for i j
  proof -
    have "set deployed = set cs"
      by (simp add: deployed_def)
    with that(1) have "deployed ! i \<in> set cs"
      using nth_mem by blast
    with that(3) have "(name (deployed ! i), name (deployed ! j)) \<in> set (dependencyEdges cs)"
      by (auto simp: dependencyEdges_def)
    from edge [OF this] have "indexOf ord (name (deployed ! j)) < indexOf ord (name (deployed ! i))"
      by simp
    moreover have "sorted (map (\<lambda>a. indexOf ord (name a)) deployed)"
      by (simp add: deployed_def)
    ultimately show ?thesis
      using that(1,2) by (rule sorted_positions [of "\<lambda>a. indexOf ord (name a)" deployed, rotated 3])
  qed
  have edges: "\<forall>(a, b) \<in> set (dependencyEdges cs).
      0 \<le> indexOf ord b \<and> indexOf ord b < indexOf ord a"
  proof (intro ballI)
    fix e assume "e \<in> set (dependencyEdges cs)"
    then have "(fst e, snd e) \<in> set (dependencyEdges cs)" by simp
    from edge [OF this] show "case e of (a, b) \<Rightarrow>
        0 \<le> indexOf ord b \<and> indexOf ord b < indexOf ord a"
      by (simp add: case_prod_beta)
  qed
  have pos': "\<forall>i<length deployed. \<forall>j<length deployed.
           name (deployed ! j) \<in> set (getDependencies (deployed ! i)) \<longrightarrow> j < i"
    using pos by blast
  show ?thesis
  proof (intro exI conjI)
    show "buildDependencyGraph cs = Inr g" by (fact g(1))
    show "sortByDependencies cs = Inr deployed" by (fact sort)
    show "distinct (postorder g (nodes g))" using dist by (simp only: ord_def)
    show "set (postorder g (nodes g)) = name ` set cs \<union> snd ` set (dependencyEdges cs)"
      using nodes g(3) by (simp only: ord_def)
    show "\<forall>(a, b) \<in> set (dependencyEdges cs).
           0 \<le> indexOf (postorder g (nodes g)) b
         \<and> indexOf (postorder g (nodes g)) b < indexOf (postorder g (nodes g)) a"
      using edges by (simp only: ord_def)
    show "mset deployed = mset cs" by (fact perm)
    show "\<forall>i<length deployed. \<forall>j<length deployed.
           name (deployed ! j) \<in> set (getDependencies (deployed ! i)) \<longrightarrow> j < i"
      by (fact pos')
  qed
qed

theorem deployment_order_topological_witness:
  "acyclic (set (dependencyEdges [contractA, libraryB]))
   \<and> (\<exists>g deployed.
       buildDependencyGraph [contractA, libraryB] = Inr g
     \<and> sortByDependencies [contractA, libraryB] = Inr deployed
     \<and> distinct (postorder g (nodes g))
     \<and> set (postorder g (nodes g))
         = name ` set [contractA, libraryB] \<union> snd ` set (dependencyEdges [contractA, libraryB])
     \<and> (\<forall>(a, b) \<in> set (dependencyEdges [contractA, libraryB]).
           0 \<le> indexOf (postorder g (nodes g)) b
         \<and> indexOf (postorder g (nodes g)) b < indexOf (postorder g (nodes g)) a)
     \<and> mset deployed = mset [contractA, libraryB]
     \<and> (\<forall>i<length deployed. \<forall>j<length deployed.
           name (deployed ! j) \<in> set (getDependencies (deployed ! i)) \<longrightarrow> j < i))
   \<and> sortByDependencies [contractA, libraryB] = Inr [libraryB, contractA]"
proof -
  have h: "acyclic (set (dependencyEdges [contractA, libraryB]))"
    by code_simp
  have "sortByDependencies [contractA, libraryB] = Inr [libraryB, contractA]"
    by code_simp
  with h deployment_order_topological [OF h] show ?thesis
    by blast
qed

section \<open>Properties of linking\<close>

text \<open>
  A bytecode without a placeholder is left as it is, whatever the contracts are.
\<close>

lemma linkBytecode_no_placeholder:
  "getDependenciesFromBytecode (bytecode c) = [] \<Longrightarrow> linkBytecode c allContracts = Inr c"
  by (simp add: linkBytecode_def)

text \<open>
  C5. The bytecode of \<open>contractA\<close> refers to the library \<open>B\<close>. When no contract
  \<open>B\<close> is known, and also when \<open>B\<close> is known and has no address yet, \<open>linkBytecode\<close>
  ends in the \<open>TypeError\<close> of reading a property of \<open>undefined\<close>, which is not the
  error that names the dependency. When the address of \<open>B\<close> is the empty string,
  \<open>linkBytecode\<close> succeeds and removes the placeholder.
\<close>

theorem linkBytecode_missing_dependency:
  "linkBytecode contractA (contractMapOf [contractA]) = Inl TypeError
   \<and> linkBytecode contractA (contractMapOf [contractA, libraryB]) = Inl TypeError
   \<and> linkBytecode contractA (contractMapOf [contractA, libraryB\<lparr>address := Some ''''\<rparr>])
       = Inr (contractA\<lparr>bytecode := ''6060''\<rparr>)
   \<and> TypeError \<noteq> UnresolvedDependencyError ''B''"
  by code_simp

text \<open>
  C6. The bytecode of \<open>calc\<close> refers to the libraries \<open>Math\<close> and \<open>MathExt\<close>, both
  with an address. The pattern built for \<open>Math\<close> also matches the start of the
  placeholder of \<open>MathExt\<close>, so linking leaves \<open>Ext____\<close> behind. Linking the
  result again reads the run of underscores as a placeholder with the empty name
  and fails, where linking once succeeded.
\<close>

theorem linkBytecode_not_idempotent:
  "linkBytecode calc (contractMapOf [math, mathExt, calc])
     = Inr (calc\<lparr>bytecode := ''60aa61aaExt____62''\<rparr>)
   \<and> linkBytecode (calc\<lparr>bytecode := ''60aa61aaExt____62''\<rparr>)
        (contractMapOf [math, mathExt, calc\<lparr>bytecode := ''60aa61aaExt____62''\<rparr>])
     = Inl TypeError"
  by code_simp

section \<open>Properties of the deployment\<close>

subsection \<open>Contracts with a configured address\<close>

text \<open>
  What \<open>deploy\<close> returns for a contract with a configured address, and that it
  sends a transaction for any other contract it accepts. The promises of a run do
  not depend on the promises collected before, and the promise of a contract with a
  configured address is the resolved one.
\<close>

lemma deploy_configured:
  "deployedContracts cfg (name c) = Some a \<Longrightarrow>
   deploy cfg c contractMap
     = Inr (c\<lparr>address := Some a\<rparr>, Resolved (c\<lparr>address := Some a\<rparr>))"
  by (simp add: deploy_def Let_def)

lemma deploy_not_configured:
  "deployedContracts cfg (name c) = None \<Longrightarrow> deploy cfg c contractMap = Inr (c', p) \<Longrightarrow>
   \<exists>t. p = Pending t"
  by (auto simp: deploy_def split: sum.splits)

lemma deployEach_promises:
  "promises (deployEach cfg js objs ps) = ps @ promises (deployEach cfg js objs [])"
proof (induction js arbitrary: objs ps)
  case Nil
  show ?case by simp
next
  case (Cons j js)
  show ?case
  proof (cases "deploy cfg (objs ! j) (contractMapOf objs)")
    case (Inl e)
    then show ?thesis by simp
  next
    case (Inr r)
    obtain c' p where r: "r = (c', p)" by (cases r)
    have "promises (deployEach cfg js (objs[j := c']) (ps @ [p]))
        = (ps @ [p]) @ promises (deployEach cfg js (objs[j := c']) [])"
      by (rule Cons.IH)
    moreover have "promises (deployEach cfg js (objs[j := c']) [p])
        = [p] @ promises (deployEach cfg js (objs[j := c']) [])"
      by (rule Cons.IH)
    ultimately show ?thesis
      using Inr r by simp
  qed
qed

lemma deployEach_thrown:
  "thrown (deployEach cfg js objs ps) = thrown (deployEach cfg js objs [])"
proof (induction js arbitrary: objs ps)
  case Nil
  show ?case by simp
next
  case (Cons j js)
  show ?case
  proof (cases "deploy cfg (objs ! j) (contractMapOf objs)")
    case (Inl e)
    then show ?thesis by simp
  next
    case (Inr r)
    obtain c' p where r: "r = (c', p)" by (cases r)
    have "thrown (deployEach cfg js (objs[j := c']) (ps @ [p]))
        = thrown (deployEach cfg js (objs[j := c']) [])"
      by (rule Cons.IH)
    moreover have "thrown (deployEach cfg js (objs[j := c']) [p])
        = thrown (deployEach cfg js (objs[j := c']) [])"
      by (rule Cons.IH)
    ultimately show ?thesis
      using Inr r by simp
  qed
qed

lemma deployEach_configured:
  "i < length (promises (deployEach cfg [k..<n] objs [])) \<Longrightarrow>
   deployedContracts cfg (name (objs ! (k + i))) = Some a \<Longrightarrow>
   promises (deployEach cfg [k..<n] objs []) ! i = Resolved ((objs ! (k + i))\<lparr>address := Some a\<rparr>)"
proof (induction "n - k" arbitrary: k objs i)
  case 0
  then show ?case by simp
next
  case (Suc d)
  then have kn: "k < n" and upt: "[k..<n] = k # [Suc k..<n]"
    by (simp_all add: upt_conv_Cons)
  show ?case
  proof (cases "deploy cfg (objs ! k) (contractMapOf objs)")
    case (Inl e)
    with Suc.prems(1) upt show ?thesis by simp
  next
    case (Inr r)
    obtain c' p where r: "r = (c', p)" by (cases r)
    let ?rest = "promises (deployEach cfg [Suc k..<n] (objs[k := c']) [])"
    have all: "promises (deployEach cfg [k..<n] objs []) = p # ?rest"
      using Inr r upt deployEach_promises [of cfg "[Suc k..<n]" "objs[k := c']" "[p]"]
      by simp
    show ?thesis
    proof (cases i)
      case 0
      with Suc.prems(2) Inr r deploy_configured [of cfg "objs ! k" a "contractMapOf objs"]
      have "p = Resolved ((objs ! k)\<lparr>address := Some a\<rparr>)"
        by auto
      with 0 all show ?thesis by simp
    next
      case (Suc i')
      have d: "d = n - Suc k"
        using Suc.hyps(2) by simp
      have same: "objs[k := c'] ! (Suc k + i') = objs ! (k + i)"
        using Suc by simp
      have "i' < length ?rest"
        using Suc.prems(1) all Suc by simp
      moreover have "deployedContracts cfg (name (objs[k := c'] ! (Suc k + i'))) = Some a"
        using Suc.prems(2) same by simp
      ultimately have "?rest ! i' = Resolved ((objs[k := c'] ! (Suc k + i'))\<lparr>address := Some a\<rparr>)"
        by (rule Suc.hyps(1) [OF d])
      with all Suc same show ?thesis by simp
    qed
  qed
qed

text \<open>
  C8. For a contract whose name has an address in \<open>config.deployedContracts\<close>,
  \<open>deploy\<close> returns the promise that is already resolved, so no transaction is
  sent; the contract it returns differs from the one it was given in the address
  only, which is the configured one, so the bytecode has not been linked; and the
  call succeeds whatever the other contracts are, also where linking would fail.
  In a run, the promise made for such a contract is that resolved promise.
\<close>

theorem deploy_reuse:
  assumes "deployedContracts cfg (name c) = Some a"
  shows "deploy cfg c contractMap
           = Inr (c\<lparr>address := Some a\<rparr>, Resolved (c\<lparr>address := Some a\<rparr>))
       \<and> (\<forall>contracts cs i.
             sortByDependencies contracts = Inr cs
           \<and> i < length (promises (module_exports cfg contracts)) \<and> cs ! i = c
           \<longrightarrow> promises (module_exports cfg contracts) ! i = Resolved (c\<lparr>address := Some a\<rparr>))"
proof (intro conjI allI impI)
  show "deploy cfg c contractMap
          = Inr (c\<lparr>address := Some a\<rparr>, Resolved (c\<lparr>address := Some a\<rparr>))"
    using assms by (simp add: deploy_def Let_def)
next
  fix contracts cs i
  assume *: "sortByDependencies contracts = Inr cs
           \<and> i < length (promises (module_exports cfg contracts)) \<and> cs ! i = c"
  then have run: "module_exports cfg contracts = deployEach cfg [0..<length cs] cs []"
    by (simp add: module_exports_def)
  have "promises (deployEach cfg [0..<length cs] cs []) ! i
      = Resolved ((cs ! (0 + i))\<lparr>address := Some a\<rparr>)"
    using * assms by (intro deployEach_configured) (simp_all add: run)
  with * run show "promises (module_exports cfg contracts) ! i = Resolved (c\<lparr>address := Some a\<rparr>)"
    by simp
qed

theorem deploy_reuse_witness:
  "deployedContracts reuseConfig (name libraryB) = Some ''0xABC''
   \<and> deploy reuseConfig libraryB (contractMapOf [libraryB, contractA])
       = Inr (libraryB\<lparr>address := Some ''0xABC''\<rparr>,
              Resolved (libraryB\<lparr>address := Some ''0xABC''\<rparr>))
   \<and> promises (module_exports reuseConfig [contractA, libraryB]) ! 0
       = Resolved (libraryB\<lparr>address := Some ''0xABC''\<rparr>)
   \<and> module_exports reuseConfig [contractA, libraryB]
       = \<lparr>promises = [Resolved (libraryB\<lparr>address := Some ''0xABC''\<rparr>),
                      Pending \<lparr>tx_from = ''0xf00'', tx_data = ''60ABC60'', tx_gas = 1000,
                               tx_arguments = []\<rparr>],
          thrown = None\<rparr>"
proof -
  have h: "deployedContracts reuseConfig (name libraryB) = Some ''0xABC''"
    by (simp add: reuseConfig_def libraryB_def)
  have sorted: "sortByDependencies [contractA, libraryB] = Inr [libraryB, contractA]"
    by code_simp
  have run: "module_exports reuseConfig [contractA, libraryB]
       = \<lparr>promises = [Resolved (libraryB\<lparr>address := Some ''0xABC''\<rparr>),
                      Pending \<lparr>tx_from = ''0xf00'', tx_data = ''60ABC60'', tx_gas = 1000,
                               tx_arguments = []\<rparr>],
          thrown = None\<rparr>"
    by code_simp
  from deploy_reuse [OF h, of "contractMapOf [libraryB, contractA]"]
  have d: "deploy reuseConfig libraryB (contractMapOf [libraryB, contractA])
       = Inr (libraryB\<lparr>address := Some ''0xABC''\<rparr>,
              Resolved (libraryB\<lparr>address := Some ''0xABC''\<rparr>))"
    and r: "\<forall>contracts cs i.
             sortByDependencies contracts = Inr cs
           \<and> i < length (promises (module_exports reuseConfig contracts)) \<and> cs ! i = libraryB
           \<longrightarrow> promises (module_exports reuseConfig contracts) ! i
                 = Resolved (libraryB\<lparr>address := Some ''0xABC''\<rparr>)"
    by blast+
  have "promises (module_exports reuseConfig [contractA, libraryB]) ! 0
       = Resolved (libraryB\<lparr>address := Some ''0xABC''\<rparr>)"
    using r [rule_format, of "[contractA, libraryB]" "[libraryB, contractA]" 0] sorted run
    by simp
  with h d run show ?thesis
    by simp
qed

subsection \<open>Constructor parameters\<close>

text \<open>
  When \<open>resolveConstructorParams\<close> returns, the parameters are the configured
  ones followed by the addresses of the constructor's dependencies, in the order
  of extraction, each of them set and not empty. When the first dependency without
  such an address is a known contract, the error names that dependency.
\<close>

lemma pushAddresses_Inr:
  "pushAddresses m params deps = Inr ps \<Longrightarrow>
   ps = params @ map (\<lambda>d. the (address (the (m d)))) deps
   \<and> (\<forall>d\<in>set deps. \<exists>c a. m d = Some c \<and> address c = Some a \<and> a \<noteq> [])"
proof (induction deps arbitrary: params)
  case Nil
  then show ?case by simp
next
  case (Cons d deps)
  from Cons.prems obtain c a where
    d: "m d = Some c" "address c = Some a" "a \<noteq> []"
    and rest: "pushAddresses m (params @ [a]) deps = Inr ps"
    by (auto split: option.splits if_splits)
  from Cons.IH [OF rest] d show ?case
    by simp
qed

lemma pushAddresses_unresolved:
  "deps = pre @ d # post \<Longrightarrow>
   \<forall>x\<in>set pre. \<exists>c a. m x = Some c \<and> address c = Some a \<and> a \<noteq> [] \<Longrightarrow>
   m d = Some c \<Longrightarrow> address c = None \<or> address c = Some [] \<Longrightarrow>
   pushAddresses m params deps = Inl (UnresolvedDependencyError d)"
proof (induction pre arbitrary: deps params)
  case Nil
  then show ?case by auto
next
  case (Cons x pre)
  from Cons.prems(2) obtain cx ax where
    x: "m x = Some cx" "address cx = Some ax" "ax \<noteq> []"
    by auto
  have "pushAddresses m (params @ [ax]) (pre @ d # post) = Inl (UnresolvedDependencyError d)"
    using Cons.prems by (intro Cons.IH) auto
  with x Cons.prems(1) show ?case
    by simp
qed

lemma resolveConstructorParams_Inr:
  "resolveConstructorParams cfg c m = Inr ps \<Longrightarrow>
   ps = (case constructorParams cfg (name c) of None \<Rightarrow> [] | Some configured \<Rightarrow> configured)
        @ map (\<lambda>d. the (address (the (m d)))) (getDependenciesFromConstructor (abi c))"
  by (auto simp: resolveConstructorParams_def Let_def dest: pushAddresses_Inr)

text \<open>
  C9. The constructor of \<open>token\<close> takes the address of \<open>Oracle\<close>. When no
  contract \<open>Oracle\<close> is known, \<open>deploy\<close> ends in the \<open>TypeError\<close> of reading a
  property of \<open>undefined\<close>, not in the error that names the dependency. When
  \<open>Oracle\<close> is known and has no address, the error names it; when it has one,
  the transaction carries the configured parameters followed by that address.
\<close>

theorem deploy_missing_constructor_dependency:
  "deploy exampleConfig token (contractMapOf [token]) = Inl TypeError
   \<and> TypeError \<noteq> UnresolvedDependencyError ''Oracle''
   \<and> deploy exampleConfig token (contractMapOf [token, oracle_contract])
       = Inl (UnresolvedDependencyError ''Oracle'')
   \<and> deploy (exampleConfig\<lparr>constructorParams := [''Token'' \<mapsto> [''7'']]\<rparr>) token
        (contractMapOf [token, oracle_contract\<lparr>address := Some ''0xcc''\<rparr>])
       = Inr (token, Pending \<lparr>tx_from = ''0xf00'', tx_data = ''6003'', tx_gas = 1000,
                               tx_arguments = [''7'', ''0xcc'']\<rparr>)"
  by code_simp

subsection \<open>The run\<close>

text \<open>
  When \<open>compiledContracts.map\<close> returns without an exception, a transaction is
  in flight for every contract without a configured address.
\<close>

lemma deployEach_inFlight:
  "n = length objs \<Longrightarrow> thrown (deployEach cfg [k..<n] objs []) = None \<Longrightarrow>
   length (inFlight (deployEach cfg [k..<n] objs []))
     = length (filter (\<lambda>c. deployedContracts cfg (name c) = None) (drop k objs))"
proof (induction "n - k" arbitrary: k objs)
  case 0
  then show ?case by (simp add: inFlight_def)
next
  case (Suc d)
  then have kn: "k < n" and upt: "[k..<n] = k # [Suc k..<n]"
    by (simp_all add: upt_conv_Cons)
  have dropk: "drop k objs = objs ! k # drop (Suc k) objs"
    using kn Suc.prems(1) by (simp add: Cons_nth_drop_Suc)
  show ?case
  proof (cases "deploy cfg (objs ! k) (contractMapOf objs)")
    case (Inl e)
    with Suc.prems(2) upt show ?thesis by simp
  next
    case (Inr r)
    obtain c' p where r: "r = (c', p)" by (cases r)
    let ?next = "deployEach cfg [Suc k..<n] (objs[k := c']) []"
    have all: "promises (deployEach cfg [k..<n] objs []) = p # promises ?next"
      using Inr r upt deployEach_promises [of cfg "[Suc k..<n]" "objs[k := c']" "[p]"]
      by simp
    have thr: "thrown ?next = None"
      using Inr r upt Suc.prems(2) deployEach_thrown [of cfg "[Suc k..<n]" "objs[k := c']" "[p]"]
      by simp
    have d: "d = n - Suc k"
      using Suc.hyps(2) by simp
    have "length (inFlight ?next)
        = length (filter (\<lambda>c. deployedContracts cfg (name c) = None) (drop (Suc k) (objs[k := c'])))"
      using Suc.prems(1) thr by (intro Suc.hyps(1) [OF d]) simp_all
    then have rest: "length (inFlight ?next)
        = length (filter (\<lambda>c. deployedContracts cfg (name c) = None) (drop (Suc k) objs))"
      by simp
    have here: "length (case p of Resolved c \<Rightarrow> [] | Pending tx \<Rightarrow> [tx])
        = (if deployedContracts cfg (name (objs ! k)) = None then 1 else 0)"
    proof (cases "deployedContracts cfg (name (objs ! k))")
      case None
      with Inr r deploy_not_configured [of cfg "objs ! k" "contractMapOf objs" c' p]
      show ?thesis by auto
    next
      case (Some a)
      with Inr r deploy_configured [of cfg "objs ! k" a "contractMapOf objs"]
      show ?thesis by auto
    qed
    have "inFlight (deployEach cfg [k..<n] objs [])
        = (case p of Resolved c \<Rightarrow> [] | Pending tx \<Rightarrow> [tx]) @ inFlight ?next"
      using all by (simp add: inFlight_def)
    with here rest dropk show ?thesis
      by simp
  qed
qed

lemma module_exports_inFlight:
  assumes "thrown (module_exports cfg contractMap) = None"
  shows "length (inFlight (module_exports cfg contractMap))
     = length (filter (\<lambda>c. deployedContracts cfg (name c) = None) contractMap)"
proof (cases "sortByDependencies contractMap")
  case (Inl e)
  with assms show ?thesis by (simp add: module_exports_def)
next
  case (Inr cs)
  then have perm: "mset cs = mset contractMap"
    by (auto simp: sortByDependencies_def Let_def split: sum.splits)
  from Inr assms have "thrown (deployEach cfg [0..<length cs] cs []) = None"
    by (simp add: module_exports_def)
  then have "length (inFlight (deployEach cfg [0..<length cs] cs []))
     = length (filter (\<lambda>c. deployedContracts cfg (name c) = None) (drop 0 cs))"
    by (intro deployEach_inFlight) simp_all
  moreover have "length (filter (\<lambda>c. deployedContracts cfg (name c) = None) cs)
     = length (filter (\<lambda>c. deployedContracts cfg (name c) = None) contractMap)"
    using perm by (metis mset_filter size_mset)
  ultimately show ?thesis
    using Inr by (simp add: module_exports_def)
qed

text \<open>
  C2. With two libraries that depend on nothing, the run has sent both
  transactions when \<open>compiledContracts.map\<close> returns: two deployments are in
  flight. With \<open>contractA\<close>, which refers to the library \<open>B\<close>, the library is sent
  first, as planned, and the link step of \<open>contractA\<close> starts at once, while \<open>B\<close>
  has no address: it ends in a \<open>TypeError\<close>.
\<close>

theorem deployments_not_awaited:
  "module_exports exampleConfig [libraryB, libraryC]
     = \<lparr>promises = [Pending \<lparr>tx_from = ''0xf00'', tx_data = ''6001'', tx_gas = 1000, tx_arguments = []\<rparr>,
                    Pending \<lparr>tx_from = ''0xf00'', tx_data = ''6002'', tx_gas = 1000, tx_arguments = []\<rparr>],
        thrown = None\<rparr>
   \<and> length (inFlight (module_exports exampleConfig [libraryB, libraryC])) = 2
   \<and> sortByDependencies [contractA, libraryB] = Inr [libraryB, contractA]
   \<and> module_exports exampleConfig [contractA, libraryB]
     = \<lparr>promises = [Pending \<lparr>tx_from = ''0xf00'', tx_data = ''6001'', tx_gas = 1000, tx_arguments = []\<rparr>],
        thrown = Some TypeError\<rparr>"
  by code_simp

end
